theory Spec2Isabelle
  imports Main "HOL-Library.Char_ord" "HOL-Library.Multiset"
begin

section \<open>Documents and collections\<close>

text \<open>
  The server keeps three MongoDB collections: users, freets and VSP requests. A collection
  is modelled as the list of its documents in natural order, so that \<open>findOne\<close> returns
  the first document that satisfies the query. Date fields that no decision of the code
  reads (\<open>dateJoined\<close>, \<open>dateCreated\<close>, \<open>dateRequested\<close>) are left out; \<open>dateModified\<close>
  is kept as milliseconds, because the recommendation scan sorts on it.
\<close>

type_synonym objectId = nat

record user =
  uid :: objectId
  username :: string
  password :: string
  VSP :: bool
  interests :: "string list"
  followers :: "string list"
  following :: "string list"

record freet =
  fid :: objectId
  authorId :: objectId
  content :: string
  dateModified :: int
  endorsements :: "string list"
  denouncements :: "string list"
  fact_flag :: bool

record vsprequest =
  req_username :: string
  req_content :: string
  granted :: bool

record database =
  users :: "user list"
  freets :: "freet list"
  vsprequests :: "vsprequest list"

text \<open>
  A query result is a hydrated document: the stored value together with the place of the
  document in its collection. \<open>save\<close> writes the modified paths of a hydrated document
  back to that place.
\<close>

fun findOne :: "('a \<Rightarrow> bool) \<Rightarrow> 'a list \<Rightarrow> (nat \<times> 'a) option" where
  "findOne q [] = None"
| "findOne q (x # xs) =
     (if q x then Some (0, x)
      else (case findOne q xs of None \<Rightarrow> None | Some (i, y) \<Rightarrow> Some (Suc i, y)))"

section \<open>Requests and replies\<close>

text \<open>
  \<open>req.session.userId\<close> is either undefined or the id of the signed-in user. The body
  holds every field that some handler reads; a string field is \<open>None\<close> when it is
  missing, and a flag is \<open>True\<close> when the field is truthy.
\<close>

type_synonym session = "objectId option"

record body =
  body_username :: "string option"
  body_password :: "string option"
  body_VSP :: bool
  body_revoke :: bool
  body_interests :: "string option"
  body_deleteInterest :: bool
  body_following :: "string option"
  body_unfollow :: bool
  body_content :: "string option"
  body_freetId :: "objectId option"

definition no_fields :: body where
  "no_fields = \<lparr>body_username = None, body_password = None, body_VSP = False,
     body_revoke = False, body_interests = None, body_deleteInterest = False,
     body_following = None, body_unfollow = False, body_content = None,
     body_freetId = None\<rparr>"

text \<open>JavaScript truthiness of a string field: present and not the empty string.\<close>

definition truthy :: "string option \<Rightarrow> string option" where
  "truthy v = (case v of None \<Rightarrow> None | Some s \<Rightarrow> (if s = [] then None else Some s))"

text \<open>
  The replies of the handlers. Each refusal is named after the error kind of the
  specification; the code sends the status and message given beside it.
  \<^item> \<open>Unauthenticated\<close>: 403, You must be logged in to complete this action.
  \<^item> \<open>SelfFollow\<close>: 403, You cannot follow yourself.
  \<^item> \<open>AlreadyFollowing\<close>: 409, You are already following this user.
  \<^item> \<open>NotFollowing\<close>: 409, You cannot unfollow a user you have never followed.
  \<^item> \<open>NoInterests\<close>: 404, You do not currently have any interests added.
  \<^item> \<open>AlreadyVerified\<close>: 409, User is already a VSP.
  \<^item> \<open>RequestAlreadyExists\<close>: 409, User has already submitted a request.
  \<^item> \<open>NotAuthorized\<close>: 401, You do not have permission to do this.
  \<^item> \<open>RequestNotFound\<close>: 404, Request not found.
  \<^item> \<open>AlreadyGranted\<close>: 409, Request already granted.
  \<^item> \<open>NotYetGranted\<close>: 409, Request has not yet been granted.
  \<^item> \<open>FreetNotFound\<close>: 404, Freet with freet ID ... does not exist.
  \<^item> \<open>NotAFact\<close>: 403, You cannot endorse or denounce a freet that is an opinion.
  \<^item> \<open>NotVerified\<close>: 403, You cannot endorse or denounce a freet if you are not a VSP.
  \<^item> \<open>AlreadyEndorsed\<close>, \<open>AlreadyDenounced\<close>: 409.
  \<^item> \<open>TypeError\<close>: a property of \<open>null\<close> is read; the exception is not caught.
  \<^item> \<open>ValidationError\<close>: the schema rejects the document on \<open>save\<close>.
  \<^item> \<open>CastError\<close>: a query is given a value that is no ObjectId.
  \<^item> \<open>VersionError\<close>: \<open>save\<close> finds that the stored document has another version.
  \<^item> \<open>NoResponse\<close>: a middleware neither answers nor calls \<open>next\<close>.
\<close>

datatype failure =
    Unauthenticated | SelfFollow | AlreadyFollowing | NotFollowing | NoInterests
  | AlreadyVerified | RequestAlreadyExists | NotAuthorized | RequestNotFound
  | AlreadyGranted | NotYetGranted | FreetNotFound | NotAFact | NotVerified
  | AlreadyEndorsed | AlreadyDenounced
  | TypeError | ValidationError | CastError | VersionError | NoResponse

datatype 'a reply = Ok 'a | Fail failure

text \<open>
  A middleware returns \<open>None\<close> when it calls \<open>next()\<close> and the refusal otherwise; the
  chain of a route stops at the first refusal.
\<close>

type_synonym middleware = "database \<Rightarrow> session \<Rightarrow> body \<Rightarrow> failure option"

fun run_chain :: "middleware list \<Rightarrow> database \<Rightarrow> session \<Rightarrow> body \<Rightarrow> failure option" where
  "run_chain [] db sess b = None"
| "run_chain (m # ms) db sess b =
     (case m db sess b of Some e \<Rightarrow> Some e | None \<Rightarrow> run_chain ms db sess b)"

section \<open>UserCollection\<close>

definition findOneByUserId :: "session \<Rightarrow> database \<Rightarrow> (nat \<times> user) option" where
  "findOneByUserId userId db =
     (case userId of None \<Rightarrow> None
      | Some i \<Rightarrow> findOne (\<lambda>u. uid u = i) (users db))"

text \<open>
  \<open>user.save()\<close> and \<open>followedUser.save()\<close> write the modified paths only: \<open>updateOne\<close>
  changes \<open>followers\<close> on the followed user and the other fields on the acting user.

  Mongoose versions its documents. A \<open>save\<close> that modified an array increments the stored
  version, and a \<open>save\<close> that follows a \<open>splice\<close> also requires the stored version to be
  the one that was read. The two hydrated documents of \<open>updateOne\<close> are read at the same
  version; when they are copies of one stored document (the acting user is the followed
  user), \<open>followedUser.save()\<close> moves the version on, and \<open>user.save()\<close> after a \<open>splice\<close>
  throws a VersionError: the change of \<open>followers\<close> is stored, the rest is not, and no
  reply is sent. A \<open>push\<close> alone does not require the version.
\<close>

definition save_followers :: "nat \<Rightarrow> string list \<Rightarrow> user list \<Rightarrow> user list" where
  "save_followers j fs us = us[j := (us ! j)\<lparr>followers := fs\<rparr>]"

definition save_user :: "nat \<Rightarrow> user \<Rightarrow> user list \<Rightarrow> user list" where
  "save_user i u us =
     us[i := (us ! i)\<lparr>VSP := VSP u, password := password u, username := username u,
                      interests := interests u, following := following u\<rparr>]"

definition updateOne :: "objectId \<Rightarrow> body \<Rightarrow> database \<Rightarrow> user reply \<times> database" where
  "updateOne userId userDetails db =
     (case findOne (\<lambda>u. uid u = userId) (users db) of
        None \<Rightarrow> (Fail TypeError, db)
      | Some (i, user0) \<Rightarrow>
          if body_VSP userDetails then
            (let user = (if body_revoke userDetails then user0\<lparr>VSP := False\<rparr>
                         else user0\<lparr>VSP := True\<rparr>)
             in (Ok user, db\<lparr>users := save_user i user (users db)\<rparr>))
          else
            (let user1 = (case truthy (body_password userDetails) of
                            Some p \<Rightarrow> user0\<lparr>password := p\<rparr> | None \<Rightarrow> user0);
                 user2 = (case truthy (body_username userDetails) of
                            Some n \<Rightarrow> user1\<lparr>username := n\<rparr> | None \<Rightarrow> user1);
                 user3 = (case truthy (body_interests userDetails) of
                            Some x \<Rightarrow>
                              if \<not> body_deleteInterest userDetails
                              then user2\<lparr>interests := interests user2 @ [x]\<rparr> else user2
                          | None \<Rightarrow> user2);
                 user4 = (case truthy (body_interests userDetails) of
                            Some x \<Rightarrow>
                              if body_deleteInterest userDetails
                              then user3\<lparr>interests := remove1 x (interests user3)\<rparr> else user3
                          | None \<Rightarrow> user3);
                 interests_spliced = (case truthy (body_interests userDetails) of
                            Some x \<Rightarrow> body_deleteInterest userDetails \<and> x \<in> set (interests user3)
                          | None \<Rightarrow> False)
             in (case truthy (body_following userDetails) of
                   None \<Rightarrow> (Ok user4, db\<lparr>users := save_user i user4 (users db)\<rparr>)
                 | Some target \<Rightarrow>
                     (case findOne (\<lambda>u. username u = target) (users db) of
                        None \<Rightarrow> (Fail TypeError, db)
                      | Some (j, followedUser) \<Rightarrow>
                          if \<not> body_unfollow userDetails then
                            (let user5 = user4\<lparr>following := following user4 @ [target]\<rparr>;
                                 us1 = save_followers j
                                         (followers followedUser @ [username user5]) (users db)
                             in if i = j \<and> interests_spliced
                                then (Fail VersionError, db\<lparr>users := us1\<rparr>)
                                else (Ok user5, db\<lparr>users := save_user i user5 us1\<rparr>))
                          else
                            (let fs = remove1 (username user4) (followers followedUser);
                                 user5 = user4\<lparr>following := remove1 target (following user4)\<rparr>;
                                 us1 = save_followers j fs (users db)
                             in if i = j \<and> username user4 \<in> set (followers followedUser)
                                     \<and> (target \<in> set (following user4) \<or> interests_spliced)
                                then (Fail VersionError, db\<lparr>users := us1\<rparr>)
                                else (Ok user5, db\<lparr>users := save_user i user5 us1\<rparr>))))))"

section \<open>User middleware\<close>

definition isUserLoggedIn :: middleware where
  "isUserLoggedIn db sess b = (if sess = None then Some Unauthenticated else None)"

definition includes_field :: "string list \<Rightarrow> string option \<Rightarrow> bool" where
  "includes_field xs v = (case v of None \<Rightarrow> False | Some s \<Rightarrow> s \<in> set xs)"

definition isUserAlreadyFollowingTargetUser :: middleware where
  "isUserAlreadyFollowingTargetUser db sess b =
     (if sess \<noteq> None then
        (case findOneByUserId sess db of
           None \<Rightarrow> Some TypeError
         | Some (i, user) \<Rightarrow>
             if includes_field (following user) (body_following b)
             then Some AlreadyFollowing else None)
      else None)"

definition isUserNotYetFollowingTargetUser :: middleware where
  "isUserNotYetFollowingTargetUser db sess b =
     (if sess \<noteq> None then
        (case findOneByUserId sess db of
           None \<Rightarrow> Some TypeError
         | Some (i, user) \<Rightarrow>
             if \<not> includes_field (following user) (body_following b)
             then Some NotFollowing else None)
      else None)"

definition isUserTryingToFollowSelf :: middleware where
  "isUserTryingToFollowSelf db sess b =
     (if sess \<noteq> None then
        (case findOneByUserId sess db of
           None \<Rightarrow> Some TypeError
         | Some (i, user) \<Rightarrow>
             if Some (username user) = body_following b then Some SelfFollow else None)
      else None)"

definition isUserHasInterests :: middleware where
  "isUserHasInterests db sess b =
     (if sess \<noteq> None then
        (case findOneByUserId sess db of
           None \<Rightarrow> Some TypeError
         | Some (i, user) \<Rightarrow> if interests user \<noteq> [] then None else Some NoInterests)
      else Some NoResponse)"

section \<open>The follow and unfollow routes\<close>

text \<open>
  \<open>PATCH /api/users/followers\<close> and \<open>DELETE /api/users/followers\<close>. The handler reads
  \<open>req.session.userId ?? ''\<close>; the empty string is no ObjectId.
\<close>

definition patch_followers :: "database \<Rightarrow> session \<Rightarrow> body \<Rightarrow> user reply \<times> database" where
  "patch_followers db sess b =
     (case run_chain [isUserLoggedIn, isUserAlreadyFollowingTargetUser,
                      isUserTryingToFollowSelf] db sess b of
        Some e \<Rightarrow> (Fail e, db)
      | None \<Rightarrow>
          (case sess of None \<Rightarrow> (Fail CastError, db)
           | Some userId \<Rightarrow> updateOne userId b db))"

definition delete_followers :: "database \<Rightarrow> session \<Rightarrow> body \<Rightarrow> user reply \<times> database" where
  "delete_followers db sess b =
     (case run_chain [isUserLoggedIn, isUserNotYetFollowingTargetUser] db sess b of
        Some e \<Rightarrow> (Fail e, db)
      | None \<Rightarrow>
          (case sess of None \<Rightarrow> (Fail CastError, db)
           | Some userId \<Rightarrow> updateOne userId (b\<lparr>body_unfollow := True\<rparr>) db))"

text \<open>
  The operations \<open>follow(actor, target)\<close> and \<open>unfollow(actor, target)\<close>: the routes called
  as documented, with a body that holds the field \<open>following\<close> and nothing else.
\<close>

definition follow :: "database \<Rightarrow> session \<Rightarrow> string \<Rightarrow> user reply \<times> database" where
  "follow db sess target = patch_followers db sess (no_fields\<lparr>body_following := Some target\<rparr>)"

definition unfollow :: "database \<Rightarrow> session \<Rightarrow> string \<Rightarrow> user reply \<times> database" where
  "unfollow db sess target = delete_followers db sess (no_fields\<lparr>body_following := Some target\<rparr>)"


section \<open>Recommendations\<close>

text \<open>
  \<open>String.prototype.includes\<close>: \<open>includes_str s x\<close> holds when \<open>x\<close> occurs in \<open>s\<close> as a
  contiguous run of characters.
\<close>

fun startsWith :: "string \<Rightarrow> string \<Rightarrow> bool" where
  "startsWith s [] = True"
| "startsWith [] (c # cs) = False"
| "startsWith (d # ds) (c # cs) = (d = c \<and> startsWith ds cs)"

fun includes_str :: "string \<Rightarrow> string \<Rightarrow> bool" where
  "includes_str [] x = (x = [])"
| "includes_str (d # ds) x = (startsWith (d # ds) x \<or> includes_str ds x)"

text \<open>
  \<open>FreetModel.find({}).sort({dateModified: -1})\<close>: all freets, the most recently modified
  first. Freets with equal dates keep their stored order.
\<close>

definition find_sorted :: "database \<Rightarrow> freet list" where
  "find_sorted db = sort_key (\<lambda>f. - dateModified f) (freets db)"

text \<open>The three loops of \<open>findRecommended\<close>, each with the array it pushes to.\<close>

fun freetsToCheck_loop ::
  "database \<Rightarrow> string list \<Rightarrow> freet list \<Rightarrow> freet list \<Rightarrow> freet list option" where
  "freetsToCheck_loop db userFollowing [] freetsToCheck = Some freetsToCheck"
| "freetsToCheck_loop db userFollowing (eachFreet # rest) freetsToCheck =
     (case findOneByUserId (Some (authorId eachFreet)) db of
        None \<Rightarrow> None
      | Some (i, freetAuthor) \<Rightarrow>
          if username freetAuthor \<notin> set userFollowing
          then freetsToCheck_loop db userFollowing rest (freetsToCheck @ [eachFreet])
          else freetsToCheck_loop db userFollowing rest freetsToCheck)"

fun interest_loop :: "freet \<Rightarrow> string list \<Rightarrow> bool" where
  "interest_loop eachFreet [] = False"
| "interest_loop eachFreet (eachInterest # rest) =
     (if includes_str (content eachFreet) eachInterest then True
      else interest_loop eachFreet rest)"

fun interestingFreets_loop :: "string list \<Rightarrow> freet list \<Rightarrow> freet list \<Rightarrow> freet list" where
  "interestingFreets_loop userInterests [] interestingFreets = interestingFreets"
| "interestingFreets_loop userInterests (eachFreet # rest) interestingFreets =
     (if interest_loop eachFreet userInterests
      then interestingFreets_loop userInterests rest (interestingFreets @ [eachFreet])
      else interestingFreets_loop userInterests rest interestingFreets)"

fun authorsToFollow_loop ::
  "database \<Rightarrow> freet list \<Rightarrow> user list \<Rightarrow> string list \<Rightarrow> user list option" where
  "authorsToFollow_loop db [] authorsToFollow authorNames = Some authorsToFollow"
| "authorsToFollow_loop db (eachFreet # rest) authorsToFollow authorNames =
     (case findOneByUserId (Some (authorId eachFreet)) db of
        None \<Rightarrow> None
      | Some (i, freetAuthor) \<Rightarrow>
          if username freetAuthor \<notin> set authorNames
          then authorsToFollow_loop db rest (authorsToFollow @ [freetAuthor])
                 (authorNames @ [username freetAuthor])
          else authorsToFollow_loop db rest authorsToFollow authorNames)"

definition findRecommended :: "objectId \<Rightarrow> database \<Rightarrow> user list reply" where
  "findRecommended userId db =
     (case findOne (\<lambda>u. uid u = userId) (users db) of
        None \<Rightarrow> Fail TypeError
      | Some (i, user) \<Rightarrow>
          (case freetsToCheck_loop db (following user) (find_sorted db) [] of
             None \<Rightarrow> Fail TypeError
           | Some freetsToCheck \<Rightarrow>
               (case authorsToFollow_loop db
                       (interestingFreets_loop (interests user) freetsToCheck []) [] [] of
                  None \<Rightarrow> Fail TypeError
                | Some authorsToFollow \<Rightarrow> Ok authorsToFollow)))"

text \<open>\<open>GET /api/users/recommended\<close>, the operation \<open>recommend(user)\<close>.\<close>

definition get_recommended :: "database \<Rightarrow> session \<Rightarrow> body \<Rightarrow> user list reply \<times> database" where
  "get_recommended db sess b =
     (case run_chain [isUserLoggedIn, isUserHasInterests] db sess b of
        Some e \<Rightarrow> (Fail e, db)
      | None \<Rightarrow>
          (case sess of None \<Rightarrow> (Fail CastError, db)
           | Some userId \<Rightarrow> (findRecommended userId db, db)))"

definition recommend :: "database \<Rightarrow> session \<Rightarrow> user list reply" where
  "recommend db sess = fst (get_recommended db sess no_fields)"

section \<open>VSPRequestCollection\<close>

text \<open>
  \<open>findOneByUsername\<close> of both collections queries with
  \<open>new RegExp(`^${username?.trim()}$`, 'i')\<close>. For a pattern without regular-expression
  metacharacters, as every name that \<open>isValidUsername\<close> admits is, the expression matches
  exactly the strings that equal the trimmed pattern up to the case of ASCII letters. A
  missing \<open>username\<close> is interpolated as the text \<open>undefined\<close>.

  The model covers these patterns only. With a metacharacter in the pattern the
  expression of the code matches other strings as well (the pattern \<open>d.ve\<close> matches
  \<open>dave\<close>) or does not compile. Statements that rest on the matcher are therefore made
  for valid usernames.
\<close>

definition lower :: "char \<Rightarrow> char" where
  "lower c = (if CHR ''A'' \<le> c \<and> c \<le> CHR ''Z'' then char_of (of_char c + (32::nat)) else c)"

definition whitespace :: "char \<Rightarrow> bool" where
  "whitespace c = (c \<in> set [CHR '' '', CHR 0x09, CHR 0x0A, CHR 0x0B, CHR 0x0C, CHR 0x0D])"

definition trim :: "string \<Rightarrow> string" where
  "trim s = rev (dropWhile whitespace (rev (dropWhile whitespace s)))"

definition username_regex :: "string option \<Rightarrow> string \<Rightarrow> bool" where
  "username_regex v name =
     (map lower (trim (case v of None \<Rightarrow> ''undefined'' | Some s \<Rightarrow> s)) = map lower name)"

definition User_findOneByUsername :: "string option \<Rightarrow> database \<Rightarrow> (nat \<times> user) option" where
  "User_findOneByUsername v db = findOne (\<lambda>u. username_regex v (username u)) (users db)"

definition VSPRequest_findOneByUsername ::
  "string option \<Rightarrow> database \<Rightarrow> (nat \<times> vsprequest) option" where
  "VSPRequest_findOneByUsername v db =
     findOne (\<lambda>r. username_regex v (req_username r)) (vsprequests db)"

text \<open>
  \<open>addOne\<close>: the schema requires \<open>username\<close> and \<open>content\<close>, and a required string must
  not be empty; otherwise \<open>save\<close> rejects the document and nothing is stored.
\<close>

definition VSPRequest_addOne ::
  "string \<Rightarrow> string option \<Rightarrow> database \<Rightarrow> vsprequest reply \<times> database" where
  "VSPRequest_addOne name v db =
     (case truthy v of
        None \<Rightarrow> (Fail ValidationError, db)
      | Some c \<Rightarrow>
          if name = [] then (Fail ValidationError, db)
          else (let vsprequest = \<lparr>req_username = name, req_content = c, granted = False\<rparr>
                in (Ok vsprequest, db\<lparr>vsprequests := vsprequests db @ [vsprequest]\<rparr>)))"

definition acceptOne :: "string option \<Rightarrow> database \<Rightarrow> vsprequest reply \<times> database" where
  "acceptOne v db =
     (case findOne (\<lambda>r. Some (req_username r) = v) (vsprequests db) of
        None \<Rightarrow> (Fail TypeError, db)
      | Some (k, vsprequest) \<Rightarrow>
          (Ok (vsprequest\<lparr>granted := True\<rparr>),
           db\<lparr>vsprequests := (vsprequests db)[k := vsprequest\<lparr>granted := True\<rparr>]\<rparr>))"

definition ungrantOne :: "string option \<Rightarrow> database \<Rightarrow> vsprequest reply \<times> database" where
  "ungrantOne v db =
     (case findOne (\<lambda>r. Some (req_username r) = v) (vsprequests db) of
        None \<Rightarrow> (Fail TypeError, db)
      | Some (k, vsprequest) \<Rightarrow>
          (Ok (vsprequest\<lparr>granted := False\<rparr>),
           db\<lparr>vsprequests := (vsprequests db)[k := vsprequest\<lparr>granted := False\<rparr>]\<rparr>))"

section \<open>VSP request middleware\<close>

definition isUserAlreadyVSP :: middleware where
  "isUserAlreadyVSP db sess b =
     (if sess \<noteq> None then
        (case findOneByUserId sess db of
           None \<Rightarrow> Some TypeError
         | Some (i, user) \<Rightarrow> if \<not> VSP user then None else Some AlreadyVerified)
      else Some NoResponse)"

definition isUserAlreadySubmittedRequest :: middleware where
  "isUserAlreadySubmittedRequest db sess b =
     (if sess \<noteq> None then
        (case findOneByUserId sess db of
           None \<Rightarrow> Some TypeError
         | Some (i, user) \<Rightarrow>
             (case VSPRequest_findOneByUsername (Some (username user)) db of
                None \<Rightarrow> None
              | Some vsprequest \<Rightarrow> Some RequestAlreadyExists))
      else Some NoResponse)"

definition isUserAdmin :: middleware where
  "isUserAdmin db sess b =
     (if sess \<noteq> None then
        (case findOneByUserId sess db of
           None \<Rightarrow> Some TypeError
         | Some (i, user) \<Rightarrow> if username user = ''lola'' then None else Some NotAuthorized)
      else Some NoResponse)"

definition isRequestExists :: middleware where
  "isRequestExists db sess b =
     (case VSPRequest_findOneByUsername (body_username b) db of
        Some request \<Rightarrow> None
      | None \<Rightarrow> Some RequestNotFound)"

definition isRequestAlreadyAccepted :: middleware where
  "isRequestAlreadyAccepted db sess b =
     (case VSPRequest_findOneByUsername (body_username b) db of
        None \<Rightarrow> Some TypeError
      | Some (k, request) \<Rightarrow> if \<not> granted request then None else Some AlreadyGranted)"

definition isRequestNotYetGranted :: middleware where
  "isRequestNotYetGranted db sess b =
     (case VSPRequest_findOneByUsername (body_username b) db of
        None \<Rightarrow> Some TypeError
      | Some (k, request) \<Rightarrow> if granted request then None else Some NotYetGranted)"

section \<open>The VSP request routes\<close>

text \<open>\<open>POST /api/vsprequest\<close>.\<close>

definition post_vsprequest ::
  "database \<Rightarrow> session \<Rightarrow> body \<Rightarrow> vsprequest reply \<times> database" where
  "post_vsprequest db sess b =
     (case run_chain [isUserLoggedIn, isUserAlreadyVSP, isUserAlreadySubmittedRequest]
             db sess b of
        Some e \<Rightarrow> (Fail e, db)
      | None \<Rightarrow>
          (case sess of None \<Rightarrow> (Fail CastError, db)
           | Some userId \<Rightarrow>
               (case findOneByUserId (Some userId) db of
                  None \<Rightarrow> (Fail TypeError, db)
                | Some (i, user) \<Rightarrow> VSPRequest_addOne (username user) (body_content b) db)))"

text \<open>
  \<open>PUT /api/vsprequest\<close> and \<open>DELETE /api/vsprequest/vspstatus\<close>. The request is saved
  before the user is looked up, so a failure of the second half leaves the first in place.
\<close>

definition set_VSP ::
  "vsprequest \<Rightarrow> body \<Rightarrow> database \<Rightarrow> (vsprequest \<times> user) reply \<times> database" where
  "set_VSP vsprequest b db =
     (case User_findOneByUsername (body_username b) db of
        None \<Rightarrow> (Fail TypeError, db)
      | Some (i, user) \<Rightarrow>
          (case updateOne (uid user) b db of
             (Fail e, db') \<Rightarrow> (Fail e, db')
           | (Ok updatedUser, db') \<Rightarrow> (Ok (vsprequest, updatedUser), db')))"

definition put_vsprequest ::
  "database \<Rightarrow> session \<Rightarrow> body \<Rightarrow> (vsprequest \<times> user) reply \<times> database" where
  "put_vsprequest db sess b =
     (case run_chain [isUserLoggedIn, isUserAdmin, isRequestExists, isRequestAlreadyAccepted]
             db sess b of
        Some e \<Rightarrow> (Fail e, db)
      | None \<Rightarrow>
          (case acceptOne (body_username b) db of
             (Fail e, db') \<Rightarrow> (Fail e, db')
           | (Ok vsprequest, db') \<Rightarrow> set_VSP vsprequest (b\<lparr>body_VSP := True\<rparr>) db'))"

definition delete_vspstatus ::
  "database \<Rightarrow> session \<Rightarrow> body \<Rightarrow> (vsprequest \<times> user) reply \<times> database" where
  "delete_vspstatus db sess b =
     (case run_chain [isUserLoggedIn, isUserAdmin, isRequestExists, isRequestNotYetGranted]
             db sess b of
        Some e \<Rightarrow> (Fail e, db)
      | None \<Rightarrow>
          (case ungrantOne (body_username b) db of
             (Fail e, db') \<Rightarrow> (Fail e, db')
           | (Ok vsprequest, db') \<Rightarrow>
               set_VSP vsprequest (b\<lparr>body_VSP := True, body_revoke := True\<rparr>) db'))"

text \<open>
  The operations of the workflow: the routes called as documented, with a body that holds
  the justification (\<open>content\<close>) or the \<open>username\<close> and nothing else.
\<close>

definition submit :: "database \<Rightarrow> session \<Rightarrow> string \<Rightarrow> vsprequest reply \<times> database" where
  "submit db sess justification =
     post_vsprequest db sess (no_fields\<lparr>body_content := Some justification\<rparr>)"

definition accept ::
  "database \<Rightarrow> session \<Rightarrow> string \<Rightarrow> (vsprequest \<times> user) reply \<times> database" where
  "accept db sess name = put_vsprequest db sess (no_fields\<lparr>body_username := Some name\<rparr>)"

definition revoke ::
  "database \<Rightarrow> session \<Rightarrow> string \<Rightarrow> (vsprequest \<times> user) reply \<times> database" where
  "revoke db sess name = delete_vspstatus db sess (no_fields\<lparr>body_username := Some name\<rparr>)"


text \<open>
  \<open>isValidUsername\<close> tests a name against \<open>/^\w+$/i\<close>: one or more letters, digits or
  underscores. Sign-up and profile updates store only such names.
\<close>

definition word_char :: "char \<Rightarrow> bool" where
  "word_char c = ((CHR ''a'' \<le> c \<and> c \<le> CHR ''z'') \<or> (CHR ''A'' \<le> c \<and> c \<le> CHR ''Z'')
                  \<or> (CHR ''0'' \<le> c \<and> c \<le> CHR ''9'') \<or> c = CHR ''_'')"

definition valid_username :: "string \<Rightarrow> bool" where
  "valid_username n = (n \<noteq> [] \<and> (\<forall>c\<in>set n. word_char c))"

text \<open>
  The data model keeps at most one request per username: the stored requests carry valid
  usernames that differ pairwise, also when case is ignored.
\<close>

definition one_request_per_username :: "database \<Rightarrow> bool" where
  "one_request_per_username db =
     (distinct (map (\<lambda>r. map lower (req_username r)) (vsprequests db))
      \<and> (\<forall>r\<in>set (vsprequests db). valid_username (req_username r)))"


section \<open>FreetCollection and freet middleware\<close>

definition Freet_findOne :: "objectId option \<Rightarrow> database \<Rightarrow> (nat \<times> freet) option" where
  "Freet_findOne freetId db =
     (case freetId of None \<Rightarrow> None
      | Some i \<Rightarrow> findOne (\<lambda>f. fid f = i) (freets db))"




definition isFreetAFact :: middleware where
  "isFreetAFact db sess b =
     (case Freet_findOne (body_freetId b) db of
        None \<Rightarrow> Some TypeError
      | Some (k, freet) \<Rightarrow> if \<not> fact_flag freet then Some NotAFact else None)"

definition isUserVSP :: middleware where
  "isUserVSP db sess b =
     (case findOneByUserId sess db of
        None \<Rightarrow> Some TypeError
      | Some (i, user) \<Rightarrow> if \<not> VSP user then Some NotVerified else None)"



section \<open>The endorse and denounce routes\<close>

text \<open>
  The file \<open>server/freet/router.ts\<close> is not among the sources. The client calls
  \<open>PATCH /api/freets/endorsements\<close> and \<open>PATCH /api/freets/denouncements\<close> with the body
  \<open>{freetId}\<close>. The checks and the collection operations that the routes compose are the
  ones of the sources, translated above; only their composition is taken from the
  specification.
\<close>







section \<open>Properties of the social graph\<close>

text \<open>
  The invariants of the data model: usernames are unique, \<open>following\<close> and \<open>followers\<close>
  hold no entry twice, the two lists are projections of one relation, and no user follows
  themself. \<open>graph_inv\<close> collects the three that depend on one another.
\<close>

definition unique_usernames :: "database \<Rightarrow> bool" where
  "unique_usernames db = distinct (map username (users db))"

definition unique_edges :: "database \<Rightarrow> bool" where
  "unique_edges db = (\<forall>u\<in>set (users db). distinct (following u) \<and> distinct (followers u))"

definition graph_symmetric :: "database \<Rightarrow> bool" where
  "graph_symmetric db =
     (\<forall>A\<in>set (users db). \<forall>B\<in>set (users db). A \<noteq> B \<longrightarrow>
        (username B \<in> set (following A) \<longleftrightarrow> username A \<in> set (followers B)))"

definition no_self_edges :: "database \<Rightarrow> bool" where
  "no_self_edges db = (\<forall>u\<in>set (users db). username u \<notin> set (following u))"

definition graph_inv :: "database \<Rightarrow> bool" where
  "graph_inv db = (unique_usernames db \<and> unique_edges db \<and> graph_symmetric db)"

text \<open>The same invariants, stated on the places of the collection.\<close>

definition inv_nth :: "user list \<Rightarrow> bool" where
  "inv_nth us =
     (distinct (map username us)
      \<and> (\<forall>p<length us. distinct (following (us ! p)) \<and> distinct (followers (us ! p)))
      \<and> (\<forall>p<length us. \<forall>q<length us. p \<noteq> q \<longrightarrow>
            (username (us ! q) \<in> set (following (us ! p))
               \<longleftrightarrow> username (us ! p) \<in> set (followers (us ! q)))))"

text \<open>
  A sequence of follow and unfollow requests. Each request runs the whole route, checks
  included; the next request sees the database that the previous one left.
\<close>

datatype graph_call = Follow session string | Unfollow session string

fun graph_step :: "database \<Rightarrow> graph_call \<Rightarrow> database" where
  "graph_step db (Follow sess target) = snd (follow db sess target)"
| "graph_step db (Unfollow sess target) = snd (unfollow db sess target)"

fun run_calls :: "database \<Rightarrow> graph_call list \<Rightarrow> database" where
  "run_calls db [] = db"
| "run_calls db (c # cs) = run_calls (graph_step db c) cs"

section \<open>The recommendation algorithm as the specification words it\<close>

definition literal_substring :: "string \<Rightarrow> string \<Rightarrow> bool" where
  "literal_substring x s = (\<exists>pre post. s = pre @ x @ post)"

definition author_name :: "database \<Rightarrow> freet \<Rightarrow> string option" where
  "author_name db f = map_option (\<lambda>(i, a). username a) (findOneByUserId (Some (authorId f)) db)"

definition keeps :: "database \<Rightarrow> user \<Rightarrow> freet \<Rightarrow> bool" where
  "keeps db u f =
     ((\<exists>n. author_name db f = Some n \<and> n \<notin> set (following u))
      \<and> (\<exists>x\<in>set (interests u). literal_substring x (content f)))"

function first_occurrences :: "'a list \<Rightarrow> 'a list" where
  "first_occurrences [] = []"
| "first_occurrences (x # xs) = x # first_occurrences (removeAll x xs)"
  by pat_completeness auto
termination
  by (relation "measure length") (auto simp: less_Suc_eq_le length_removeAll_less_eq)

definition most_recent_first :: "freet list \<Rightarrow> bool" where
  "most_recent_first fs = sorted_wrt (\<lambda>f g. dateModified g \<le> dateModified f) fs"

definition recommend_spec :: "database \<Rightarrow> user \<Rightarrow> string option list" where
  "recommend_spec db u =
     first_occurrences (map (author_name db) (filter (keeps db u) (find_sorted db)))"

section \<open>Scenarios\<close>

definition alice :: user where
  "alice = \<lparr>uid = 1, username = ''alice'', password = ''a1'', VSP = False,
            interests = [''rust''], followers = [], following = []\<rparr>"

definition bob :: user where
  "bob = \<lparr>uid = 2, username = ''bob'', password = ''b2'', VSP = False,
          interests = [], followers = [], following = []\<rparr>"

definition carol :: user where
  "carol = \<lparr>uid = 3, username = ''carol'', password = ''c3'', VSP = False,
            interests = [], followers = [], following = []\<rparr>"

definition dave :: user where
  "dave = \<lparr>uid = 4, username = ''dave'', password = ''d4'', VSP = False,
           interests = [], followers = [], following = []\<rparr>"

definition lola :: user where
  "lola = \<lparr>uid = 5, username = ''lola'', password = ''l5'', VSP = False,
           interests = [], followers = [], following = []\<rparr>"

definition freet_bob :: freet where
  "freet_bob = \<lparr>fid = 11, authorId = 2, content = ''I love rust'', dateModified = 100,
                endorsements = [], denouncements = [], fact_flag = False\<rparr>"

definition freet_carol :: freet where
  "freet_carol = \<lparr>fid = 12, authorId = 3, content = ''I love go'', dateModified = 200,
                  endorsements = [], denouncements = [], fact_flag = True\<rparr>"

definition freet_alice :: freet where
  "freet_alice = \<lparr>fid = 13, authorId = 1, content = ''rust tips'', dateModified = 300,
                  endorsements = [], denouncements = [], fact_flag = True\<rparr>"

definition db_feed :: database where
  "db_feed = \<lparr>users = [alice, bob, carol], freets = [freet_bob, freet_carol],
              vsprequests = []\<rparr>"

definition db_own_freet :: database where
  "db_own_freet = \<lparr>users = [alice, bob, carol],
                   freets = [freet_bob, freet_carol, freet_alice], vsprequests = []\<rparr>"

definition db_admin :: database where
  "db_admin = \<lparr>users = [lola, dave], freets = [freet_bob, freet_carol], vsprequests = []\<rparr>"


definition db_edge :: database where
  "db_edge = \<lparr>users = [alice\<lparr>following := [''bob'']\<rparr>, bob\<lparr>followers := [''alice'']\<rparr>, carol],
              freets = [], vsprequests = []\<rparr>"

definition db_ghost :: database where
  "db_ghost = \<lparr>users = [alice\<lparr>following := [''ghost'']\<rparr>, bob], freets = [],
               vsprequests = []\<rparr>"

definition graph_calls :: "graph_call list" where
  "graph_calls = [Follow (Some 1) ''bob'', Follow (Some 2) ''alice'', Unfollow (Some 1) ''bob'',
                  Follow (Some 3) ''alice'', Follow (Some 1) ''alice'', Follow (Some 3) ''ghost'',
                  Unfollow (Some 2) ''carol'', Follow None ''bob'']"

definition db_after_calls :: database where
  "db_after_calls =
     \<lparr>users = [alice\<lparr>followers := [''bob'', ''carol'']\<rparr>, bob\<lparr>following := [''alice'']\<rparr>,
               carol\<lparr>following := [''alice'']\<rparr>],
      freets = [freet_bob, freet_carol], vsprequests = []\<rparr>"


definition request_dave :: vsprequest where
  "request_dave = \<lparr>req_username = ''dave'', req_content = ''I am a journalist'',
                   granted = False\<rparr>"

definition db_pending :: database where
  "db_pending = db_admin\<lparr>vsprequests := [request_dave]\<rparr>"

definition db_granted :: database where
  "db_granted = \<lparr>users = [lola, dave\<lparr>VSP := True\<rparr>], freets = [freet_bob, freet_carol],
                 vsprequests = [request_dave\<lparr>granted := True\<rparr>]\<rparr>"

definition db_revoked :: database where
  "db_revoked = \<lparr>users = [lola, dave], freets = [freet_bob, freet_carol],
                 vsprequests = [request_dave]\<rparr>"

text \<open>
  States that requests of the server lead to. In \<open>db_renamed\<close> alice has followed bob, bob
  has taken the name robert and alice the name bob (\<open>PUT /api/users\<close> changes the username
  and leaves the lists as they are). In \<open>db_duplicate\<close> alice has followed bob and taken the
  name al, carol has taken the name alice and followed bob, and al has unfollowed bob.
\<close>

definition db_renamed :: database where
  "db_renamed = \<lparr>users = [alice\<lparr>username := ''bob'', following := [''bob'']\<rparr>,
                          bob\<lparr>username := ''robert'', followers := [''alice'']\<rparr>],
                 freets = [], vsprequests = []\<rparr>"

definition db_duplicate :: database where
  "db_duplicate = \<lparr>users = [alice\<lparr>username := ''al''\<rparr>,
                            bob\<lparr>followers := [''alice'', ''alice'']\<rparr>,
                            carol\<lparr>username := ''alice'', following := [''bob'']\<rparr>],
                   freets = [], vsprequests = []\<rparr>"

definition db_duplicate_after :: database where
  "db_duplicate_after = \<lparr>users = [alice\<lparr>username := ''al''\<rparr>,
                                  bob\<lparr>followers := [''alice'']\<rparr>,
                                  carol\<lparr>username := ''alice''\<rparr>],
                         freets = [], vsprequests = []\<rparr>"

definition request_carol :: vsprequest where
  "request_carol = \<lparr>req_username = ''carol'', req_content = ''I check sources'',
                    granted = False\<rparr>"

definition db_office :: database where
  "db_office = \<lparr>users = [lola, carol], freets = [], vsprequests = []\<rparr>"

definition db_office_pending :: database where
  "db_office_pending = \<lparr>users = [lola, carol], freets = [], vsprequests = [request_carol]\<rparr>"

definition db_office_granted :: database where
  "db_office_granted = \<lparr>users = [lola, carol\<lparr>VSP := True\<rparr>], freets = [],
                        vsprequests = [request_carol\<lparr>granted := True\<rparr>]\<rparr>"

text \<open>
  Two states outside the data model, which show what its invariants are needed for: two
  users of one name (\<open>db_twins\<close>), and two requests whose usernames differ in case only
  (\<open>db_case_variants\<close>, and \<open>accept_twice_state\<close> after an accept).
\<close>

definition db_twins :: database where
  "db_twins = \<lparr>users = [alice, bob, carol\<lparr>username := ''bob''\<rparr>], freets = [],
               vsprequests = []\<rparr>"

definition db_case_variants :: database where
  "db_case_variants =
     \<lparr>users = [lola, dave], freets = [],
      vsprequests = [request_dave\<lparr>req_username := ''Dave''\<rparr>, request_dave]\<rparr>"

definition accept_twice_state :: database where
  "accept_twice_state =
     \<lparr>users = [lola, dave\<lparr>VSP := True\<rparr>], freets = [],
      vsprequests = [request_dave\<lparr>req_username := ''Dave''\<rparr>, request_dave\<lparr>granted := True\<rparr>]\<rparr>"

section \<open>Lookups\<close>

lemma findOne_Some:
  "findOne q xs = Some (i, x) \<Longrightarrow> i < length xs \<and> xs ! i = x \<and> q x \<and> (\<forall>k<i. \<not> q (xs ! k))"
proof (induction xs arbitrary: i)
  case Nil then show ?case by simp
next
  case (Cons a xs)
  show ?case
  proof (cases "q a")
    case True with Cons.prems show ?thesis by simp
  next
    case False
    with Cons.prems obtain i' where f: "findOne q xs = Some (i', x)" and i: "i = Suc i'"
      by (auto split: option.splits)
    from Cons.IH[OF f] False i show ?thesis
      by (auto simp: nth_Cons less_Suc_eq_0_disj split: nat.splits)
  qed
qed

lemma findOne_None: "findOne q xs = None \<longleftrightarrow> (\<forall>x\<in>set xs. \<not> q x)"
  by (induction xs) (auto split: option.splits)

lemma findOne_first:
  assumes "i < length xs" "q (xs ! i)" "\<forall>k<i. \<not> q (xs ! k)"
  shows "findOne q xs = Some (i, xs ! i)"
proof (cases "findOne q xs")
  case None
  with assms(1,2) show ?thesis by (auto simp: findOne_None)
next
  case (Some p)
  obtain k x where p: "p = (k, x)" by (cases p)
  from findOne_Some[OF Some[unfolded p]]
  have k: "k < length xs" "xs ! k = x" "q x" "\<forall>m<k. \<not> q (xs ! m)" by auto
  have "k = i"
  proof (rule ccontr)
    assume "k \<noteq> i"
    then consider "k < i" | "i < k" by linarith
    then show False using assms k by cases auto
  qed
  with Some p k show ?thesis by simp
qed

lemma findOne_Some_iff:
  "findOne q xs = Some (i, x) \<longleftrightarrow>
     i < length xs \<and> xs ! i = x \<and> q x \<and> (\<forall>k<i. \<not> q (xs ! k))"
  using findOne_Some[of q xs i x] findOne_first[of i xs q] by auto

lemma findOne_same_keys:
  assumes "findOne q xs = Some (i, x)" "length ys = length xs"
    and "\<forall>k<length xs. q (ys ! k) = q (xs ! k)"
  shows "findOne q ys = Some (i, ys ! i)"
  using assms by (auto simp: findOne_Some_iff)

lemma findOne_append_new:
  assumes "findOne q xs = None" "findOne q (xs @ [y]) = Some (k, r)"
  shows "k = length xs \<and> r = y \<and> q y"
proof -
  from assms(2) have k: "k < Suc (length xs)" "(xs @ [y]) ! k = r" "q r"
    by (auto simp: findOne_Some_iff)
  have "\<not> k < length xs"
  proof
    assume "k < length xs"
    with k have "q (xs ! k)" "xs ! k \<in> set xs" by (auto simp: nth_append)
    with assms(1) show False by (auto simp: findOne_None)
  qed
  with k show ?thesis by (auto simp: nth_append)
qed

lemma findOne_append_first:
  assumes "findOne q xs = None" "q y"
  shows "findOne q (xs @ [y]) = Some (length xs, y)"
  using findOne_first[of "length xs" "xs @ [y]" q] assms
  by (auto simp: findOne_None nth_append)

lemma findOne_VSP_update:
  assumes "findOne q us = Some (k, x)" and "\<And>u v. q (u\<lparr>VSP := v\<rparr>) = q u"
    and "m < length us" "us ! m = U"
  shows "findOne q (us[m := U\<lparr>VSP := v\<rparr>]) = Some (k, (us[m := U\<lparr>VSP := v\<rparr>]) ! k)"
proof (rule findOne_same_keys)
  show "findOne q us = Some (k, x)" by fact
  show "length (us[m := U\<lparr>VSP := v\<rparr>]) = length us" by simp
  show "\<forall>k<length us. q (us[m := U\<lparr>VSP := v\<rparr>] ! k) = q (us ! k)"
    using assms(2,3,4) by (auto simp: nth_list_update)
qed

section \<open>Follow and unfollow keep the graph consistent\<close>

lemma save_user_same:
  "i < length us \<Longrightarrow> us ! i = A \<Longrightarrow> save_user i A us = us"
  by (auto simp add: save_user_def list_update_same_conv)

lemma follow_result:
  "snd (follow db sess t) = db \<or>
   (\<exists>a i A j B. sess = Some a
      \<and> findOne (\<lambda>u. uid u = a) (users db) = Some (i, A)
      \<and> findOne (\<lambda>u. username u = t) (users db) = Some (j, B)
      \<and> t \<notin> set (following A) \<and> username A \<noteq> t
      \<and> snd (follow db sess t) =
          db\<lparr>users := (users db)[j := B\<lparr>followers := followers B @ [username A]\<rparr>,
                                  i := A\<lparr>following := following A @ [t]\<rparr>]\<rparr>)"
proof (cases sess)
  case None
  then show ?thesis
    by (simp add: follow_def patch_followers_def isUserLoggedIn_def)
next
  case (Some a)
  show ?thesis
  proof (cases "findOne (\<lambda>u. uid u = a) (users db)")
    case None
    with Some show ?thesis
      by (simp add: follow_def patch_followers_def isUserLoggedIn_def
          isUserAlreadyFollowingTargetUser_def findOneByUserId_def)
  next
    case (Some p)
    obtain i A where p: "p = (i, A)" by (cases p)
    note fA = Some[unfolded p]
    from findOne_Some[OF fA] have iA: "i < length (users db)" "users db ! i = A" by auto
    show ?thesis
    proof (cases "t \<in> set (following A) \<or> username A = t \<or> t = []")
      case True
      with \<open>sess = Some a\<close> fA iA show ?thesis
        by (auto simp: follow_def patch_followers_def isUserLoggedIn_def
          isUserAlreadyFollowingTargetUser_def isUserTryingToFollowSelf_def findOneByUserId_def
          includes_field_def no_fields_def updateOne_def truthy_def save_user_same)
    next
      case False
      show ?thesis
      proof (cases "findOne (\<lambda>u. username u = t) (users db)")
        case None
        with False \<open>sess = Some a\<close> fA iA show ?thesis
        by (auto simp: follow_def patch_followers_def isUserLoggedIn_def
          isUserAlreadyFollowingTargetUser_def isUserTryingToFollowSelf_def findOneByUserId_def
          includes_field_def no_fields_def updateOne_def truthy_def save_user_same)
      next
        case (Some q)
        obtain j B where q: "q = (j, B)" by (cases q)
        note fB = Some[unfolded q]
        from findOne_Some[OF fB] have jB: "j < length (users db)" "users db ! j = B" "username B = t" by auto
        with iA False have ij: "i \<noteq> j" by auto
        have "snd (follow db sess t) =
          db\<lparr>users := (users db)[j := B\<lparr>followers := followers B @ [username A]\<rparr>,
                                  i := A\<lparr>following := following A @ [t]\<rparr>]\<rparr>"
          using False \<open>sess = Some a\<close> fA iA fB jB ij
          by (simp add: follow_def patch_followers_def isUserLoggedIn_def
          isUserAlreadyFollowingTargetUser_def isUserTryingToFollowSelf_def findOneByUserId_def
          includes_field_def no_fields_def updateOne_def truthy_def save_user_def save_followers_def)
        with False \<open>sess = Some a\<close> fA fB show ?thesis by blast
      qed
    qed
  qed
qed

lemma unfollow_result:
  "snd (unfollow db sess t) = db \<or>
   (\<exists>a i A j B. sess = Some a
      \<and> findOne (\<lambda>u. uid u = a) (users db) = Some (i, A)
      \<and> findOne (\<lambda>u. username u = t) (users db) = Some (j, B)
      \<and> snd (unfollow db sess t) =
          (if i = j \<and> username A \<in> set (followers B)
           then db\<lparr>users := (users db)[j := B\<lparr>followers := remove1 (username A) (followers B)\<rparr>]\<rparr>
           else db\<lparr>users :=
               ((users db)[j := B\<lparr>followers := remove1 (username A) (followers B)\<rparr>])
                 [i := (((users db)[j := B\<lparr>followers := remove1 (username A) (followers B)\<rparr>]) ! i)
                         \<lparr>following := remove1 t (following A)\<rparr>]\<rparr>))"
proof (cases sess)
  case None
  then show ?thesis
    by (simp add: unfollow_def delete_followers_def isUserLoggedIn_def)
next
  case (Some a)
  show ?thesis
  proof (cases "findOne (\<lambda>u. uid u = a) (users db)")
    case None
    with Some show ?thesis
      by (simp add: unfollow_def delete_followers_def isUserLoggedIn_def
          isUserNotYetFollowingTargetUser_def findOneByUserId_def)
  next
    case (Some p)
    obtain i A where p: "p = (i, A)" by (cases p)
    note fA = Some[unfolded p]
    from findOne_Some[OF fA] have iA: "i < length (users db)" "users db ! i = A" by auto
    show ?thesis
    proof (cases "t \<notin> set (following A) \<or> t = []")
      case True
      with \<open>sess = Some a\<close> fA iA show ?thesis
        by (auto simp: unfollow_def delete_followers_def isUserLoggedIn_def
          isUserNotYetFollowingTargetUser_def findOneByUserId_def
          includes_field_def no_fields_def updateOne_def truthy_def save_user_same)
    next
      case False
      show ?thesis
      proof (cases "findOne (\<lambda>u. username u = t) (users db)")
        case None
        with False \<open>sess = Some a\<close> fA iA show ?thesis
        by (auto simp: unfollow_def delete_followers_def isUserLoggedIn_def
          isUserNotYetFollowingTargetUser_def findOneByUserId_def
          includes_field_def no_fields_def updateOne_def truthy_def save_user_same)
      next
        case (Some q)
        obtain j B where q: "q = (j, B)" by (cases q)
        note fB = Some[unfolded q]
        from findOne_Some[OF fB] have jB: "j < length (users db)" "users db ! j = B" "username B = t" by auto
        have "snd (unfollow db sess t) =
          (if i = j \<and> username A \<in> set (followers B)
           then db\<lparr>users := (users db)[j := B\<lparr>followers := remove1 (username A) (followers B)\<rparr>]\<rparr>
           else db\<lparr>users :=
               ((users db)[j := B\<lparr>followers := remove1 (username A) (followers B)\<rparr>])
                 [i := (((users db)[j := B\<lparr>followers := remove1 (username A) (followers B)\<rparr>]) ! i)
                         \<lparr>following := remove1 t (following A)\<rparr>]\<rparr>)"
          using False \<open>sess = Some a\<close> fA iA fB jB
          by (cases "i = j") (auto simp add: unfollow_def delete_followers_def isUserLoggedIn_def
          isUserNotYetFollowingTargetUser_def findOneByUserId_def Let_def
          includes_field_def no_fields_def updateOne_def truthy_def save_user_def save_followers_def)
        with False \<open>sess = Some a\<close> fA fB show ?thesis by blast
      qed
    qed
  qed
qed

lemma distinct_usernames_nth:
  "distinct (map username us) \<Longrightarrow> p < length us \<Longrightarrow> q < length us \<Longrightarrow>
     (username (us ! p) = username (us ! q)) = (p = q)"
  using nth_eq_iff_index_eq[of "map username us" p q] by simp

lemma graph_inv_nth: "graph_inv db = inv_nth (users db)"
proof
  assume g: "graph_inv db"
  then have d: "distinct (map username (users db))"
    by (simp add: graph_inv_def unique_usernames_def)
  have ne: "users db ! p \<noteq> users db ! q"
    if "p < length (users db)" "q < length (users db)" "p \<noteq> q" for p q
    using distinct_usernames_nth[OF d that(1,2)] that(3) by auto
  from g d ne show "inv_nth (users db)"
    unfolding graph_inv_def unique_edges_def graph_symmetric_def inv_nth_def
    by (simp add: all_set_conv_all_nth)
next
  assume i: "inv_nth (users db)"
  then have d: "distinct (map username (users db))" by (simp add: inv_nth_def)
  have sym: "graph_symmetric db"
    unfolding graph_symmetric_def
  proof (intro ballI impI)
    fix A B assume "A \<in> set (users db)" "B \<in> set (users db)" "A \<noteq> B"
    then obtain p q where pq: "p < length (users db)" "q < length (users db)"
      "users db ! p = A" "users db ! q = B"
      by (auto simp: in_set_conv_nth)
    with \<open>A \<noteq> B\<close> have "p \<noteq> q" by auto
    with i pq show "(username B \<in> set (following A)) = (username A \<in> set (followers B))"
      unfolding inv_nth_def by blast
  qed
  from i d sym show "graph_inv db"
    unfolding graph_inv_def unique_edges_def unique_usernames_def inv_nth_def
    by (simp add: all_set_conv_all_nth)
qed

lemma inv_nth_follow:
  assumes inv: "inv_nth us"
    and i: "i < length us" "us ! i = A"
    and j: "j < length us" "us ! j = B"
    and t: "username B \<notin> set (following A)" "username A \<noteq> username B"
  shows "inv_nth (us[j := B\<lparr>followers := followers B @ [username A]\<rparr>,
                     i := A\<lparr>following := following A @ [username B]\<rparr>])"
proof -
  let ?us = "us[j := B\<lparr>followers := followers B @ [username A]\<rparr>,
                i := A\<lparr>following := following A @ [username B]\<rparr>]"
  from inv have d: "distinct (map username us)" by (simp add: inv_nth_def)
  from t i j have ij: "i \<noteq> j" by auto
  have names: "map username ?us = map username us"
    using i j by (intro nth_equalityI) (auto simp: nth_list_update)
  have nm: "username (?us ! p) = username (us ! p)" if "p < length us" for p
    using that i j by (auto simp: nth_list_update)
  have eqi: "(username (us ! p) = username A) = (p = i)" if "p < length us" for p
    using distinct_usernames_nth[OF d that i(1)] i(2) by simp
  have eqj: "(username (us ! p) = username B) = (p = j)" if "p < length us" for p
    using distinct_usernames_nth[OF d that j(1)] j(2) by simp
  from inv i j ij t have nB: "username A \<notin> set (followers B)"
    unfolding inv_nth_def by blast
  have e: "distinct (following (?us ! p)) \<and> distinct (followers (?us ! p))"
    if "p < length us" for p
    using that inv i j t nB by (auto simp: inv_nth_def nth_list_update)
  have s: "(username (?us ! q) \<in> set (following (?us ! p)))
             = (username (?us ! p) \<in> set (followers (?us ! q)))"
    if "p < length us" "q < length us" "p \<noteq> q" for p q
  proof -
    from inv that have old: "(username (us ! q) \<in> set (following (us ! p)))
             = (username (us ! p) \<in> set (followers (us ! q)))"
      unfolding inv_nth_def by blast
    show ?thesis
      using that old i j ij eqi[OF that(1)] eqj[OF that(2)] eqi[OF that(2)] eqj[OF that(1)]
      by (auto simp: nth_list_update)
  qed
  show ?thesis
    unfolding inv_nth_def using names d e s by simp
qed

lemma inv_nth_unfollow:
  assumes inv: "inv_nth us"
    and i: "i < length us" "us ! i = A"
    and j: "j < length us" "us ! j = B"
  shows "inv_nth ((us[j := B\<lparr>followers := remove1 (username A) (followers B)\<rparr>])
                 [i := ((us[j := B\<lparr>followers := remove1 (username A) (followers B)\<rparr>]) ! i)
                         \<lparr>following := remove1 (username B) (following A)\<rparr>])"
proof -
  let ?us1 = "us[j := B\<lparr>followers := remove1 (username A) (followers B)\<rparr>]"
  let ?us = "?us1[i := (?us1 ! i)\<lparr>following := remove1 (username B) (following A)\<rparr>]"
  from inv have d: "distinct (map username us)" by (simp add: inv_nth_def)
  from inv i j have dA: "distinct (following A)" and dB: "distinct (followers B)"
    by (auto simp: inv_nth_def)
  have nm: "username (?us ! p) = username (us ! p)" if "p < length us" for p
    using that i j by (auto simp: nth_list_update)
  have names: "map username ?us = map username us"
    using nm by (intro nth_equalityI) auto
  have eqi: "(username (us ! p) = username A) = (p = i)" if "p < length us" for p
    using distinct_usernames_nth[OF d that i(1)] i(2) by simp
  have eqj: "(username (us ! p) = username B) = (p = j)" if "p < length us" for p
    using distinct_usernames_nth[OF d that j(1)] j(2) by simp
  have e: "distinct (following (?us ! p)) \<and> distinct (followers (?us ! p))"
    if "p < length us" for p
    using that inv i j by (auto simp: inv_nth_def nth_list_update)
  have s: "(username (?us ! q) \<in> set (following (?us ! p)))
             = (username (?us ! p) \<in> set (followers (?us ! q)))"
    if "p < length us" "q < length us" "p \<noteq> q" for p q
  proof -
    from inv that have old: "(username (us ! q) \<in> set (following (us ! p)))
             = (username (us ! p) \<in> set (followers (us ! q)))"
      unfolding inv_nth_def by blast
    show ?thesis
      using that old i j dA dB eqi[OF that(1)] eqj[OF that(2)] eqi[OF that(2)] eqj[OF that(1)]
      by (auto simp: nth_list_update)
  qed
  show ?thesis
    unfolding inv_nth_def using names d e s by simp
qed

lemma inv_nth_unfollow_self:
  assumes inv: "inv_nth us" and i: "i < length us" "us ! i = A"
  shows "inv_nth (us[i := A\<lparr>followers := remove1 (username A) (followers A)\<rparr>])"
proof -
  let ?us = "us[i := A\<lparr>followers := remove1 (username A) (followers A)\<rparr>]"
  from inv have d: "distinct (map username us)" by (simp add: inv_nth_def)
  have nm: "username (?us ! p) = username (us ! p)" if "p < length us" for p
    using that i by (auto simp: nth_list_update)
  have names: "map username ?us = map username us"
    using nm by (intro nth_equalityI) auto
  have eqi: "(username (us ! p) = username A) = (p = i)" if "p < length us" for p
    using distinct_usernames_nth[OF d that i(1)] i(2) by simp
  have e: "distinct (following (?us ! p)) \<and> distinct (followers (?us ! p))"
    if "p < length us" for p
    using that inv i by (auto simp: inv_nth_def nth_list_update)
  have s: "(username (?us ! q) \<in> set (following (?us ! p)))
             = (username (?us ! p) \<in> set (followers (?us ! q)))"
    if "p < length us" "q < length us" "p \<noteq> q" for p q
  proof -
    from inv that have old: "(username (us ! q) \<in> set (following (us ! p)))
             = (username (us ! p) \<in> set (followers (us ! q)))"
      unfolding inv_nth_def by blast
    show ?thesis
      using that old i eqi[OF that(1)] eqi[OF that(2)]
      by (auto simp: nth_list_update)
  qed
  show ?thesis
    unfolding inv_nth_def using names d e s by simp
qed

lemma run_calls_inv: "graph_inv db \<Longrightarrow> graph_inv (run_calls db calls)"
proof (induction calls arbitrary: db)
  case Nil
  then show ?case by simp
next
  case (Cons c cs)
  have "graph_inv (graph_step db c)"
  proof (cases c)
    case (Follow sess t)
    from follow_result[of db sess t] show ?thesis
    proof
      assume "snd (follow db sess t) = db"
      with Cons.prems Follow show ?thesis by simp
    next
      assume "\<exists>a i A j B. sess = Some a
          \<and> findOne (\<lambda>u. uid u = a) (users db) = Some (i, A)
          \<and> findOne (\<lambda>u. username u = t) (users db) = Some (j, B)
          \<and> t \<notin> set (following A) \<and> username A \<noteq> t
          \<and> snd (follow db sess t) =
              db\<lparr>users := (users db)[j := B\<lparr>followers := followers B @ [username A]\<rparr>,
                                      i := A\<lparr>following := following A @ [t]\<rparr>]\<rparr>"
      then obtain a i A j B where
        fA: "findOne (\<lambda>u. uid u = a) (users db) = Some (i, A)"
        and fB: "findOne (\<lambda>u. username u = t) (users db) = Some (j, B)"
        and t: "t \<notin> set (following A)" "username A \<noteq> t"
        and r: "snd (follow db sess t) =
              db\<lparr>users := (users db)[j := B\<lparr>followers := followers B @ [username A]\<rparr>,
                                      i := A\<lparr>following := following A @ [t]\<rparr>]\<rparr>"
        by blast
      from findOne_Some[OF fA] have i: "i < length (users db)" "users db ! i = A" by simp_all
      from findOne_Some[OF fB] have j: "j < length (users db)" "users db ! j = B" "username B = t"
        by simp_all
      from Cons.prems have "inv_nth (users db)" by (simp add: graph_inv_nth)
      from inv_nth_follow[OF this i j(1,2)] t j(3)
      show ?thesis by (simp add: Follow r graph_inv_nth)
    qed
  next
    case (Unfollow sess t)
    from Cons.prems have inv: "inv_nth (users db)" by (simp add: graph_inv_nth)
    from unfollow_result[of db sess t] show ?thesis
    proof (elim disjE exE conjE)
      assume "snd (unfollow db sess t) = db"
      with Cons.prems Unfollow show ?thesis by simp
    next
      fix a i j and A B :: user
      let ?us1 = "(users db)[j := B\<lparr>followers := remove1 (username A) (followers B)\<rparr>]"
      assume fA: "findOne (\<lambda>u. uid u = a) (users db) = Some (i, A)"
        and fB: "findOne (\<lambda>u. username u = t) (users db) = Some (j, B)"
        and r: "snd (unfollow db sess t) =
          (if i = j \<and> username A \<in> set (followers B)
           then db\<lparr>users := ?us1\<rparr>
           else db\<lparr>users := ?us1[i := (?us1 ! i)\<lparr>following := remove1 t (following A)\<rparr>]\<rparr>)"
      from findOne_Some[OF fA] have i: "i < length (users db)" "users db ! i = A" by simp_all
      from findOne_Some[OF fB] have j: "j < length (users db)" "users db ! j = B" "username B = t"
        by simp_all
      show ?thesis
      proof (cases "i = j \<and> username A \<in> set (followers B)")
        case True
        with i j have "A = B" by simp
        with True r have "snd (unfollow db sess t) =
            db\<lparr>users := (users db)[i := A\<lparr>followers := remove1 (username A) (followers A)\<rparr>]\<rparr>"
          by simp
        with inv_nth_unfollow_self[OF inv i]
        show ?thesis by (simp add: Unfollow graph_inv_nth)
      next
        case False
        with r have "snd (unfollow db sess t) =
            db\<lparr>users := ?us1[i := (?us1 ! i)\<lparr>following := remove1 t (following A)\<rparr>]\<rparr>"
          by simp
        with inv_nth_unfollow[OF inv i j(1,2)] j(3)
        show ?thesis by (simp add: Unfollow graph_inv_nth)
      qed
    qed
  qed
  from Cons.IH[OF this] show ?case by simp
qed

text \<open>
  \<open>UserCollection.addOne\<close> creates an account with empty lists, under a username that the
  sign-up check found unused. A database of such accounts satisfies the invariants, and
  follow and unfollow requests keep them.
\<close>

lemma graph_inv_fresh:
  assumes "distinct (map username (users db))"
    and "\<forall>u\<in>set (users db). following u = [] \<and> followers u = []"
  shows "graph_inv db \<and> no_self_edges db"
  using assms
  by (auto simp: graph_inv_def unique_usernames_def unique_edges_def graph_symmetric_def
      no_self_edges_def)

lemma graph_step_no_self_edges:
  assumes "no_self_edges db"
  shows "no_self_edges (graph_step db c)"
proof (cases c)
  case (Follow sess t)
  from follow_result[of db sess t] show ?thesis
  proof
    assume "snd (follow db sess t) = db"
    with assms Follow show ?thesis by simp
  next
    assume "\<exists>a i A j B. sess = Some a
          \<and> findOne (\<lambda>u. uid u = a) (users db) = Some (i, A)
          \<and> findOne (\<lambda>u. username u = t) (users db) = Some (j, B)
          \<and> t \<notin> set (following A) \<and> username A \<noteq> t
          \<and> snd (follow db sess t) =
              db\<lparr>users := (users db)[j := B\<lparr>followers := followers B @ [username A]\<rparr>,
                                      i := A\<lparr>following := following A @ [t]\<rparr>]\<rparr>"
    then obtain a i A j B where
      fA: "findOne (\<lambda>u. uid u = a) (users db) = Some (i, A)"
      and fB: "findOne (\<lambda>u. username u = t) (users db) = Some (j, B)"
      and t: "username A \<noteq> t"
      and r: "snd (follow db sess t) =
              db\<lparr>users := (users db)[j := B\<lparr>followers := followers B @ [username A]\<rparr>,
                                      i := A\<lparr>following := following A @ [t]\<rparr>]\<rparr>"
      by blast
    from findOne_Some[OF fA] have A: "A \<in> set (users db)" by auto
    from findOne_Some[OF fB] have B: "B \<in> set (users db)" by auto
    have "username u \<notin> set (following u)"
      if "u \<in> set ((users db)[j := B\<lparr>followers := followers B @ [username A]\<rparr>,
                                      i := A\<lparr>following := following A @ [t]\<rparr>])" for u
    proof -
      from that set_update_subset_insert[of "(users db)[j := B\<lparr>followers := followers B @ [username A]\<rparr>]" i]
        set_update_subset_insert[of "users db" j]
      have "u = A\<lparr>following := following A @ [t]\<rparr>
          \<or> u = B\<lparr>followers := followers B @ [username A]\<rparr> \<or> u \<in> set (users db)"
        by blast
      with assms A B t show ?thesis by (auto simp: no_self_edges_def)
    qed
    then show ?thesis by (simp add: Follow r no_self_edges_def)
  qed
next
  case (Unfollow sess t)
  from unfollow_result[of db sess t] show ?thesis
  proof (elim disjE exE conjE)
    assume "snd (unfollow db sess t) = db"
    with assms Unfollow show ?thesis by simp
  next
    fix a i j and A B :: user
    let ?us1 = "(users db)[j := B\<lparr>followers := remove1 (username A) (followers B)\<rparr>]"
    assume fA: "findOne (\<lambda>u. uid u = a) (users db) = Some (i, A)"
      and fB: "findOne (\<lambda>u. username u = t) (users db) = Some (j, B)"
      and r: "snd (unfollow db sess t) =
        (if i = j \<and> username A \<in> set (followers B)
         then db\<lparr>users := ?us1\<rparr>
         else db\<lparr>users := ?us1[i := (?us1 ! i)\<lparr>following := remove1 t (following A)\<rparr>]\<rparr>)"
    from findOne_Some[OF fA] have A: "A \<in> set (users db)" "i < length (users db)" "users db ! i = A"
      by auto
    from findOne_Some[OF fB] have B: "B \<in> set (users db)" "j < length (users db)" "users db ! j = B"
      by auto
    from A B have i1: "username (?us1 ! i) = username A"
      by (auto simp: nth_list_update)
    have old: "username u \<notin> set (following u)" if "u \<in> set ?us1" for u
    proof -
      from that set_update_subset_insert[of "users db" j]
      have "u = B\<lparr>followers := remove1 (username A) (followers B)\<rparr> \<or> u \<in> set (users db)"
        by blast
      with assms B(1) show ?thesis by (auto simp: no_self_edges_def)
    qed
    have new: "username u \<notin> set (following u)"
      if "u \<in> set (?us1[i := (?us1 ! i)\<lparr>following := remove1 t (following A)\<rparr>])" for u
    proof -
      from that set_update_subset_insert[of ?us1 i]
      have "u = (?us1 ! i)\<lparr>following := remove1 t (following A)\<rparr> \<or> u \<in> set ?us1"
        by blast
      then show ?thesis
      proof
        assume "u = (?us1 ! i)\<lparr>following := remove1 t (following A)\<rparr>"
        with assms A(1) i1 show ?thesis
          by (auto simp: no_self_edges_def dest: notin_set_remove1)
      next
        assume "u \<in> set ?us1"
        then show ?thesis by (rule old)
      qed
    qed
    show ?thesis
    proof (cases "i = j \<and> username A \<in> set (followers B)")
      case True
      with r old show ?thesis by (simp add: Unfollow no_self_edges_def)
    next
      case False
      with r new show ?thesis by (simp add: Unfollow no_self_edges_def)
    qed
  qed
qed

lemma run_calls_no_self_edges: "no_self_edges db \<Longrightarrow> no_self_edges (run_calls db calls)"
  by (induction calls arbitrary: db) (auto intro: graph_step_no_self_edges)

text \<open>
  C1 as the code has it. For every pair of distinct users \<open>A\<close> and \<open>B\<close>: starting from a
  state that satisfies the graph-symmetry invariant, in which usernames are unique and no
  \<open>following\<close> or \<open>followers\<close> list holds an entry twice, after any sequence of follow and
  unfollow requests, each run through the checks of its route, \<open>B.username\<close> is in
  \<open>A.following\<close> if and only if \<open>A.username\<close> is in \<open>B.followers\<close>.
\<close>

theorem graph_symmetry_preserved:
  assumes "unique_usernames db" and "unique_edges db" and "graph_symmetric db"
    and "A \<in> set (users (run_calls db calls))" and "B \<in> set (users (run_calls db calls))"
    and "A \<noteq> B"
  shows "username B \<in> set (following A) \<longleftrightarrow> username A \<in> set (followers B)"
proof -
  from assms(1-3) have "graph_inv db" by (simp add: graph_inv_def)
  from run_calls_inv[OF this, of calls] assms(4-6) show ?thesis
    unfolding graph_inv_def graph_symmetric_def by blast
qed

theorem graph_symmetry_preserved_witness:
  "unique_usernames db_feed \<and> unique_edges db_feed \<and> graph_symmetric db_feed
   \<and> run_calls db_feed graph_calls = db_after_calls
   \<and> bob\<lparr>following := [''alice'']\<rparr> \<in> set (users (run_calls db_feed graph_calls))
   \<and> alice\<lparr>followers := [''bob'', ''carol'']\<rparr> \<in> set (users (run_calls db_feed graph_calls))
   \<and> bob\<lparr>following := [''alice'']\<rparr> \<noteq> alice\<lparr>followers := [''bob'', ''carol'']\<rparr>
   \<and> username (alice\<lparr>followers := [''bob'', ''carol'']\<rparr>)
         \<in> set (following (bob\<lparr>following := [''alice'']\<rparr>))
   \<and> username (bob\<lparr>following := [''alice'']\<rparr>)
         \<in> set (followers (alice\<lparr>followers := [''bob'', ''carol'']\<rparr>))"
proof -
  have run: "run_calls db_feed graph_calls = db_after_calls" by code_simp
  have h1: "unique_usernames db_feed" "unique_edges db_feed" "graph_symmetric db_feed"
    by code_simp+
  have h2: "bob\<lparr>following := [''alice'']\<rparr> \<in> set (users (run_calls db_feed graph_calls))"
    unfolding run by (simp add: db_after_calls_def)
  have h3: "alice\<lparr>followers := [''bob'', ''carol'']\<rparr> \<in> set (users (run_calls db_feed graph_calls))"
    unfolding run by (simp add: db_after_calls_def)
  have h4: "bob\<lparr>following := [''alice'']\<rparr> \<noteq> alice\<lparr>followers := [''bob'', ''carol'']\<rparr>"
    by (simp add: alice_def bob_def)
  have h5: "username (alice\<lparr>followers := [''bob'', ''carol'']\<rparr>)
         \<in> set (following (bob\<lparr>following := [''alice'']\<rparr>))"
    by (simp add: alice_def)
  from graph_symmetry_preserved[OF h1 h2 h3 h4] run h1 h2 h3 h4 h5 show ?thesis by blast
qed

text \<open>
  C1 as stated fails: symmetry of the start state is not enough. In \<open>db_duplicate\<close> the graph
  is symmetric and \<open>bob.followers\<close> holds alice twice; when alice unfollows bob, \<open>indexOf\<close>
  and \<open>splice\<close> remove one of the two entries, and alice is left in \<open>bob.followers\<close> while
  bob is no longer in \<open>alice.following\<close>.
\<close>

theorem unfollow_duplicate_entry_counterexample:
  "graph_symmetric db_duplicate
   \<and> unfollow db_duplicate (Some 3) ''bob''
       = (Ok (carol\<lparr>username := ''alice''\<rparr>), db_duplicate_after)
   \<and> run_calls db_duplicate [Unfollow (Some 3) ''bob''] = db_duplicate_after
   \<and> carol\<lparr>username := ''alice''\<rparr> \<in> set (users db_duplicate_after)
   \<and> bob\<lparr>followers := [''alice'']\<rparr> \<in> set (users db_duplicate_after)
   \<and> carol\<lparr>username := ''alice''\<rparr> \<noteq> bob\<lparr>followers := [''alice'']\<rparr>
   \<and> username (bob\<lparr>followers := [''alice'']\<rparr>)
         \<notin> set (following (carol\<lparr>username := ''alice''\<rparr>))
   \<and> username (carol\<lparr>username := ''alice''\<rparr>)
         \<in> set (followers (bob\<lparr>followers := [''alice'']\<rparr>))
   \<and> \<not> graph_symmetric db_duplicate_after"
  by code_simp

text \<open>
  Unique usernames are needed as well: the target of a follow is looked up by name, so a
  second user of the same name would be followed on one side only.
\<close>

lemma same_name_breaks_symmetry:
  "graph_symmetric db_twins \<and> unique_edges db_twins
   \<and> \<not> graph_symmetric (run_calls db_twins [Follow (Some 1) ''bob''])"
  by code_simp

text \<open>
  C5 as the code has it. For every user \<open>A\<close>, \<open>follow(A, A)\<close> fails and leaves every
  document unchanged. The check for an existing edge runs before the check for a
  self-follow: the refusal is SelfFollow when \<open>A.username\<close> is not in \<open>A.following\<close>, and
  AlreadyFollowing when it is.
\<close>

theorem follow_self_always_refused:
  assumes "findOneByUserId (Some a) db = Some (i, A)"
  shows "(username A \<notin> set (following A) \<longrightarrow>
            follow db (Some a) (username A) = (Fail SelfFollow, db))
       \<and> (username A \<in> set (following A) \<longrightarrow>
            follow db (Some a) (username A) = (Fail AlreadyFollowing, db))"
  using assms
  by (simp add: follow_def patch_followers_def isUserLoggedIn_def
      isUserAlreadyFollowingTargetUser_def isUserTryingToFollowSelf_def
      includes_field_def no_fields_def)

theorem follow_self_always_refused_witness:
  "findOneByUserId (Some 1) db_edge = Some (0, alice\<lparr>following := [''bob'']\<rparr>)
   \<and> username (alice\<lparr>following := [''bob'']\<rparr>) \<notin> set (following (alice\<lparr>following := [''bob'']\<rparr>))
   \<and> follow db_edge (Some 1) ''alice'' = (Fail SelfFollow, db_edge)
   \<and> findOneByUserId (Some 1) db_renamed
       = Some (0, alice\<lparr>username := ''bob'', following := [''bob'']\<rparr>)
   \<and> username (alice\<lparr>username := ''bob'', following := [''bob'']\<rparr>)
       \<in> set (following (alice\<lparr>username := ''bob'', following := [''bob'']\<rparr>))
   \<and> follow db_renamed (Some 1) ''bob'' = (Fail AlreadyFollowing, db_renamed)"
proof -
  have h1: "findOneByUserId (Some 1) db_edge = Some (0, alice\<lparr>following := [''bob'']\<rparr>)"
    by (simp add: findOneByUserId_def db_edge_def alice_def)
  have h2: "username (alice\<lparr>following := [''bob'']\<rparr>)
              \<notin> set (following (alice\<lparr>following := [''bob'']\<rparr>))"
    by (simp add: alice_def)
  have h3: "findOneByUserId (Some 1) db_renamed
       = Some (0, alice\<lparr>username := ''bob'', following := [''bob'']\<rparr>)"
    by (simp add: findOneByUserId_def db_renamed_def alice_def)
  have h4: "username (alice\<lparr>username := ''bob'', following := [''bob'']\<rparr>)
       \<in> set (following (alice\<lparr>username := ''bob'', following := [''bob'']\<rparr>))"
    by simp
  from follow_self_always_refused[OF h1] follow_self_always_refused[OF h3] h1 h2 h3 h4
  show ?thesis by (simp add: alice_def)
qed

text \<open>
  C5 as stated fails: in \<open>db_renamed\<close> the user with id 1 is named bob and has bob in
  \<open>following\<close>; the request to follow bob is a self-follow and is refused with
  AlreadyFollowing, not with SelfFollow.
\<close>

theorem follow_self_after_rename_counterexample:
  "findOneByUserId (Some 1) db_renamed
     = Some (0, alice\<lparr>username := ''bob'', following := [''bob'']\<rparr>)
   \<and> username (alice\<lparr>username := ''bob'', following := [''bob'']\<rparr>) = ''bob''
   \<and> follow db_renamed (Some 1) ''bob'' = (Fail AlreadyFollowing, db_renamed)
   \<and> follow db_renamed (Some 1) ''bob'' \<noteq> (Fail SelfFollow, db_renamed)"
  by code_simp

text \<open>
  C6. For distinct users \<open>A\<close> and \<open>B\<close> with \<open>B.username\<close> already in \<open>A.following\<close>,
  \<open>follow(A, B)\<close> fails with AlreadyFollowing and leaves the database, and so both
  documents, unchanged.
\<close>

theorem follow_existing_edge_refused:
  assumes "findOneByUserId (Some a) db = Some (i, A)"
    and "B \<in> set (users db)" and "A \<noteq> B"
    and "username B \<in> set (following A)"
  shows "follow db (Some a) (username B) = (Fail AlreadyFollowing, db)"
  using assms
  by (simp add: follow_def patch_followers_def isUserLoggedIn_def
      isUserAlreadyFollowingTargetUser_def includes_field_def no_fields_def)

theorem follow_existing_edge_refused_witness:
  "findOneByUserId (Some 1) db_edge = Some (0, alice\<lparr>following := [''bob'']\<rparr>)
   \<and> bob\<lparr>followers := [''alice'']\<rparr> \<in> set (users db_edge)
   \<and> alice\<lparr>following := [''bob'']\<rparr> \<noteq> bob\<lparr>followers := [''alice'']\<rparr>
   \<and> username (bob\<lparr>followers := [''alice'']\<rparr>) \<in> set (following (alice\<lparr>following := [''bob'']\<rparr>))
   \<and> follow db_edge (Some 1) ''bob'' = (Fail AlreadyFollowing, db_edge)"
proof -
  have h1: "findOneByUserId (Some 1) db_edge = Some (0, alice\<lparr>following := [''bob'']\<rparr>)"
    by (simp add: findOneByUserId_def db_edge_def alice_def)
  have h2: "bob\<lparr>followers := [''alice'']\<rparr> \<in> set (users db_edge)"
    by (simp add: db_edge_def)
  have h3: "alice\<lparr>following := [''bob'']\<rparr> \<noteq> bob\<lparr>followers := [''alice'']\<rparr>"
    by (simp add: alice_def bob_def)
  have h4: "username (bob\<lparr>followers := [''alice'']\<rparr>)
              \<in> set (following (alice\<lparr>following := [''bob'']\<rparr>))"
    by (simp add: bob_def)
  from follow_existing_edge_refused[OF h1 h2 h3 h4] h1 h2 h3 h4 show ?thesis
    by (simp add: bob_def)
qed

text \<open>
  C10. When the target username matches no user document, no check of the follow or of the
  unfollow route refuses the request, and \<open>updateOne\<close> reads a property of the \<open>null\<close> that
  the lookup returned: the request ends in an uncaught TypeError, not in a typed not-found
  refusal. Nothing has been saved at that point.
\<close>

theorem unknown_target_null_dereference:
  assumes "findOneByUserId (Some a) db = Some (i, A)"
    and "t \<noteq> []" and "\<forall>u\<in>set (users db). username u \<noteq> t"
  shows "(t \<notin> set (following A) \<longrightarrow>
            run_chain [isUserLoggedIn, isUserAlreadyFollowingTargetUser, isUserTryingToFollowSelf]
               db (Some a) (no_fields\<lparr>body_following := Some t\<rparr>) = None
          \<and> follow db (Some a) t = (Fail TypeError, db))
       \<and> (t \<in> set (following A) \<longrightarrow>
            run_chain [isUserLoggedIn, isUserNotYetFollowingTargetUser]
               db (Some a) (no_fields\<lparr>body_following := Some t\<rparr>) = None
          \<and> unfollow db (Some a) t = (Fail TypeError, db))"
proof -
  from assms(1) have A: "A \<in> set (users db)"
    and f: "findOne (\<lambda>u. uid u = a) (users db) = Some (i, A)"
    by (auto simp: findOneByUserId_def dest: findOne_Some)
  with assms(3) have ne: "username A \<noteq> t" by blast
  from assms(3) have none: "findOne (\<lambda>u. username u = t) (users db) = None"
    by (simp add: findOne_None)
  show ?thesis
    using assms(1,2) ne none f
    by (simp add: follow_def unfollow_def patch_followers_def delete_followers_def
        isUserLoggedIn_def isUserAlreadyFollowingTargetUser_def isUserTryingToFollowSelf_def
        isUserNotYetFollowingTargetUser_def includes_field_def no_fields_def updateOne_def
        truthy_def)
qed

theorem unknown_target_null_dereference_witness:
  "findOneByUserId (Some 1) db_ghost = Some (0, alice\<lparr>following := [''ghost'']\<rparr>)
   \<and> ''ghost'' \<noteq> [] \<and> map username (users db_ghost) = [''alice'', ''bob'']
   \<and> ''ghost'' \<in> set (following (alice\<lparr>following := [''ghost'']\<rparr>))
   \<and> unfollow db_ghost (Some 1) ''ghost'' = (Fail TypeError, db_ghost)
   \<and> findOneByUserId (Some 2) db_ghost = Some (1, bob)
   \<and> ''ghost'' \<notin> set (following bob)
   \<and> follow db_ghost (Some 2) ''ghost'' = (Fail TypeError, db_ghost)"
proof -
  have h1: "findOneByUserId (Some 1) db_ghost = Some (0, alice\<lparr>following := [''ghost'']\<rparr>)"
    by (simp add: findOneByUserId_def db_ghost_def alice_def)
  have h1': "findOneByUserId (Some 2) db_ghost = Some (1, bob)"
    by (simp add: findOneByUserId_def db_ghost_def alice_def bob_def)
  have h2: "''ghost'' \<noteq> []" by simp
  have names: "map username (users db_ghost) = [''alice'', ''bob'']"
    by (simp add: db_ghost_def alice_def bob_def)
  have h3: "\<forall>u\<in>set (users db_ghost). username u \<noteq> ''ghost''"
    by (simp add: db_ghost_def alice_def bob_def)
  have h4: "''ghost'' \<in> set (following (alice\<lparr>following := [''ghost'']\<rparr>))" by simp
  have h5: "''ghost'' \<notin> set (following bob)" by (simp add: bob_def)
  from unknown_target_null_dereference[OF h1 h2 h3]
       unknown_target_null_dereference[OF h1' h2 h3] h1 h1' h2 names h4 h5
  show ?thesis by blast
qed

text \<open>
  When the acting user and the target both exist, neither request ends in a TypeError.
\<close>

lemma graph_requests_total_when_target_exists:
  assumes "findOneByUserId (Some a) db = Some (i, A)"
    and "findOne (\<lambda>u. username u = t) (users db) = Some (j, B)"
  shows "fst (follow db (Some a) t) \<noteq> Fail TypeError
       \<and> fst (unfollow db (Some a) t) \<noteq> Fail TypeError"
  using assms
  by (auto simp: follow_def unfollow_def patch_followers_def delete_followers_def
      isUserLoggedIn_def isUserAlreadyFollowingTargetUser_def isUserTryingToFollowSelf_def
      isUserNotYetFollowingTargetUser_def includes_field_def no_fields_def updateOne_def
      truthy_def findOneByUserId_def Let_def)

section \<open>Recommendations follow the description\<close>

lemma startsWith_iff: "startsWith s x \<longleftrightarrow> (\<exists>post. s = x @ post)"
  by (induction s x rule: startsWith.induct) auto

lemma includes_str_iff: "includes_str s x \<longleftrightarrow> literal_substring x s"
proof (induction s)
  case Nil
  show ?case by (auto simp: literal_substring_def)
next
  case (Cons d ds)
  show ?case
  proof
    assume "includes_str (d # ds) x"
    then consider "startsWith (d # ds) x" | "includes_str ds x" by auto
    then show "literal_substring x (d # ds)"
    proof cases
      case 1
      then obtain post where "d # ds = x @ post" by (auto simp: startsWith_iff)
      then have "d # ds = [] @ x @ post" by simp
      then show ?thesis unfolding literal_substring_def by blast
    next
      case 2
      with Cons.IH obtain pre post where "ds = pre @ x @ post"
        by (auto simp: literal_substring_def)
      then have "d # ds = (d # pre) @ x @ post" by simp
      then show ?thesis unfolding literal_substring_def by blast
    qed
  next
    assume "literal_substring x (d # ds)"
    then obtain pre post where e: "d # ds = pre @ x @ post"
      by (auto simp: literal_substring_def)
    show "includes_str (d # ds) x"
    proof (cases pre)
      case Nil
      with e have "startsWith (d # ds) x" by (auto simp: startsWith_iff)
      then show ?thesis by simp
    next
      case (Cons p ps)
      with e have "ds = ps @ x @ post" by simp
      then have "literal_substring x ds" unfolding literal_substring_def by blast
      with Cons.IH show ?thesis by simp
    qed
  qed
qed

lemma interest_loop_iff:
  "interest_loop f xs \<longleftrightarrow> (\<exists>x\<in>set xs. literal_substring x (content f))"
  by (induction xs) (auto simp: includes_str_iff)

lemma interestingFreets_loop_filter:
  "interestingFreets_loop ints fs acc = acc @ filter (\<lambda>f. interest_loop f ints) fs"
  by (induction fs arbitrary: acc) auto

lemma freetsToCheck_loop_filter:
  "\<forall>f\<in>set fs. findOneByUserId (Some (authorId f)) db \<noteq> None \<Longrightarrow>
   freetsToCheck_loop db fol fs acc =
     Some (acc @ filter (\<lambda>f. \<exists>n. author_name db f = Some n \<and> n \<notin> set fol) fs)"
  by (induction fs arbitrary: acc) (auto simp: author_name_def split: option.splits)

lemma authorsToFollow_loop_names:
  "\<forall>f\<in>set fs. findOneByUserId (Some (authorId f)) db \<noteq> None \<Longrightarrow>
   \<exists>rs. authorsToFollow_loop db fs accU accN = Some rs
      \<and> (map (\<lambda>u. Some (username u)) accU = map Some accN \<longrightarrow>
           map (\<lambda>u. Some (username u)) rs
             = map Some accN @ first_occurrences
                 (filter (\<lambda>n. n \<notin> Some ` set accN) (map (author_name db) fs)))"
proof (induction fs arbitrary: accU accN)
  case Nil
  show ?case by simp
next
  case (Cons f fs)
  from Cons.prems obtain i a where a: "findOneByUserId (Some (authorId f)) db = Some (i, a)"
    by (cases "findOneByUserId (Some (authorId f)) db") auto
  then have an: "author_name db f = Some (username a)" by (simp add: author_name_def)
  from Cons.prems have rest: "\<forall>f\<in>set fs. findOneByUserId (Some (authorId f)) db \<noteq> None"
    by simp
  show ?case
  proof (cases "username a \<in> set accN")
    case True
    with Cons.IH[OF rest, of accU accN] a an show ?thesis by auto
  next
    case False
    from Cons.IH[OF rest, of "accU @ [a]" "accN @ [username a]"]
    obtain rs where rs: "authorsToFollow_loop db fs (accU @ [a]) (accN @ [username a]) = Some rs"
      and nm: "map (\<lambda>u. Some (username u)) (accU @ [a]) = map Some (accN @ [username a]) \<longrightarrow>
           map (\<lambda>u. Some (username u)) rs
             = map Some (accN @ [username a]) @ first_occurrences
                 (filter (\<lambda>n. n \<notin> Some ` set (accN @ [username a])) (map (author_name db) fs))"
      by blast
    have flt: "removeAll (Some (username a)) (filter (\<lambda>n. n \<notin> Some ` set accN) xs)
               = filter (\<lambda>n. n \<notin> Some ` set (accN @ [username a])) xs" for xs
      by (induction xs) auto
    from False a rs nm an flt show ?thesis by auto
  qed
qed

lemma find_sorted_props:
  "most_recent_first (find_sorted db) \<and> mset (find_sorted db) = mset (freets db)"
proof -
  have "sorted (map (\<lambda>f. - dateModified f) (find_sorted db))"
    by (simp add: find_sorted_def)
  then have "most_recent_first (find_sorted db)"
    by (simp add: most_recent_first_def sorted_map sorted_wrt_iff_nth_less)
  then show ?thesis by (simp add: find_sorted_def)
qed

text \<open>
  C7. For a user with at least one interest, \<open>recommend\<close> scans the freets most recent
  first, keeps those whose author the user does not follow and whose text contains one of
  the interests as a literal substring, and returns the distinct authors in the order of
  their first kept freet. In the scenario, alice with the interest rust and no followed
  user gets bob (I love rust) and not carol (I love go).
\<close>

theorem recommend_refines_description:
  assumes "findOneByUserId (Some a) db = Some (i, u)"
    and "interests u \<noteq> []"
    and "\<forall>f\<in>set (freets db). findOneByUserId (Some (authorId f)) db \<noteq> None"
  shows "most_recent_first (find_sorted db) \<and> mset (find_sorted db) = mset (freets db)
       \<and> (\<exists>rs. recommend db (Some a) = Ok rs
              \<and> map Some (map username rs) = recommend_spec db u)"
proof -
  let ?fs = "find_sorted db"
  let ?P = "\<lambda>f. \<exists>n. author_name db f = Some n \<and> n \<notin> set (following u)"
  have "set ?fs = set (freets db)"
    using find_sorted_props[of db] by (metis set_mset_mset)
  with assms(3) have ex: "\<forall>f\<in>set ?fs. findOneByUserId (Some (authorId f)) db \<noteq> None"
    by simp
  have l1: "freetsToCheck_loop db (following u) ?fs [] = Some (filter ?P ?fs)"
    using freetsToCheck_loop_filter[OF ex, of "following u" "[]"] by simp
  let ?int = "interestingFreets_loop (interests u) (filter ?P ?fs) []"
  have l2: "?int = filter (keeps db u) ?fs"
  proof -
    have "(?P f \<and> interest_loop f (interests u)) = keeps db u f" for f
      by (auto simp: keeps_def interest_loop_iff)
    then have "filter (\<lambda>f. interest_loop f (interests u)) (filter ?P ?fs) = filter (keeps db u) ?fs"
      by (simp add: conj_commute)
    then show ?thesis by (simp add: interestingFreets_loop_filter)
  qed
  have ex2: "\<forall>f\<in>set ?int. findOneByUserId (Some (authorId f)) db \<noteq> None"
    using ex by (simp add: l2)
  from authorsToFollow_loop_names[OF ex2, of "[]" "[]"]
  obtain rs where rs: "authorsToFollow_loop db ?int [] [] = Some rs"
    and nm: "map (\<lambda>u. Some (username u)) rs = first_occurrences (map (author_name db) ?int)"
    by auto
  from assms(1) have f: "findOne (\<lambda>u. uid u = a) (users db) = Some (i, u)"
    by (simp add: findOneByUserId_def)
  have "recommend db (Some a) = Ok rs"
    using assms(1,2) f l1 rs
    by (simp add: recommend_def get_recommended_def isUserLoggedIn_def isUserHasInterests_def
        findRecommended_def)
  moreover have "map Some (map username rs) = recommend_spec db u"
    using nm by (simp add: recommend_spec_def l2 comp_def)
  ultimately show ?thesis using find_sorted_props by blast
qed

text \<open>
  The scenario of the specification.
\<close>

theorem recommend_scenario:
  "findOneByUserId (Some 1) db_feed = Some (0, alice) \<and> interests alice = [''rust'']
   \<and> following alice = []
   \<and> freets db_feed = [freet_bob, freet_carol]
   \<and> findOneByUserId (Some (authorId freet_bob)) db_feed = Some (1, bob)
   \<and> findOneByUserId (Some (authorId freet_carol)) db_feed = Some (2, carol)
   \<and> content freet_bob = ''I love rust'' \<and> content freet_carol = ''I love go''
   \<and> recommend db_feed (Some 1) = Ok [bob]
   \<and> recommend_spec db_feed alice = [Some ''bob'']"
proof -
  have h1: "findOneByUserId (Some 1) db_feed = Some (0, alice)"
    by (simp add: findOneByUserId_def db_feed_def alice_def)
  have i: "interests alice = [''rust'']" "following alice = []" by (simp_all add: alice_def)
  then have h2: "interests alice \<noteq> []" by simp
  have fs: "freets db_feed = [freet_bob, freet_carol]" by (simp add: db_feed_def)
  have a1: "findOneByUserId (Some (authorId freet_bob)) db_feed = Some (1, bob)"
    by (simp add: findOneByUserId_def db_feed_def alice_def bob_def freet_bob_def)
  have a2: "findOneByUserId (Some (authorId freet_carol)) db_feed = Some (2, carol)"
    by (simp add: findOneByUserId_def db_feed_def alice_def bob_def carol_def freet_carol_def)
  have c: "content freet_bob = ''I love rust''" "content freet_carol = ''I love go''"
    by (simp_all add: freet_bob_def freet_carol_def)
  from a1 a2 have h3: "\<forall>f\<in>set (freets db_feed). findOneByUserId (Some (authorId f)) db_feed \<noteq> None"
    by (simp add: fs)
  have r: "recommend db_feed (Some 1) = Ok [bob]" by code_simp
  from recommend_refines_description[OF h1 h2 h3] r
  have "recommend_spec db_feed alice = [Some ''bob'']" by (auto simp: bob_def)
  with h1 i fs a1 a2 c r show ?thesis by blast
qed

text \<open>
  Users that the caller follows are never recommended.
\<close>

lemma freetsToCheck_loop_sound:
  "freetsToCheck_loop db fol fs acc = Some out \<Longrightarrow>
   \<forall>f\<in>set out. f \<in> set acc \<or>
      (\<exists>i a. findOneByUserId (Some (authorId f)) db = Some (i, a) \<and> username a \<notin> set fol)"
  by (induction fs arbitrary: acc) (fastforce split: option.splits if_splits)+

lemma interestingFreets_loop_subset:
  "set (interestingFreets_loop ints fs acc) \<subseteq> set acc \<union> set fs"
  by (auto simp: interestingFreets_loop_filter)

lemma authorsToFollow_loop_sound:
  "authorsToFollow_loop db fs accU accN = Some rs \<Longrightarrow>
   \<forall>r\<in>set rs. r \<in> set accU \<or>
      (\<exists>f\<in>set fs. \<exists>i. findOneByUserId (Some (authorId f)) db = Some (i, r))"
  by (induction fs arbitrary: accU accN) (fastforce split: option.splits if_splits)+

lemma recommend_excludes_following:
  assumes "findOneByUserId (Some a) db = Some (i, u)"
    and "recommend db (Some a) = Ok rs"
  shows "\<forall>r\<in>set rs. username r \<notin> set (following u)"
proof -
  from assms(1) have f: "findOne (\<lambda>u. uid u = a) (users db) = Some (i, u)"
    by (simp add: findOneByUserId_def)
  from assms(2) f obtain toCheck where
    c: "freetsToCheck_loop db (following u) (find_sorted db) [] = Some toCheck"
    and r: "authorsToFollow_loop db (interestingFreets_loop (interests u) toCheck []) [] [] = Some rs"
    by (auto simp: recommend_def get_recommended_def findRecommended_def
        split: option.splits if_splits)
  show ?thesis
  proof
    fix x assume "x \<in> set rs"
    with authorsToFollow_loop_sound[OF r] obtain g k where
      g: "g \<in> set (interestingFreets_loop (interests u) toCheck [])"
      "findOneByUserId (Some (authorId g)) db = Some (k, x)"
      by auto
    with interestingFreets_loop_subset[of "interests u" toCheck "[]"] have "g \<in> set toCheck"
      by auto
    with freetsToCheck_loop_sound[OF c] g(2) show "username x \<notin> set (following u)"
      by auto
  qed
qed

text \<open>
  C2. The list that \<open>recommend\<close> returns should hold neither the caller nor a user the
  caller follows. \<open>findRecommended\<close> filters on \<open>following\<close> only: when alice, interested
  in rust, has herself written about rust, she is recommended to herself, although the
  follow route refuses a self-follow.
\<close>

theorem recommend_returns_own_account:
  "findOneByUserId (Some 1) db_own_freet = Some (0, alice) \<and> interests alice = [''rust'']
   \<and> recommend db_own_freet (Some 1) = Ok [alice, bob]"
  by code_simp

section \<open>The VSP workflow\<close>

lemma submit_Ok_iff:
  "submit db sess j = (Ok r, db') \<longleftrightarrow>
     (\<exists>i u. findOneByUserId sess db = Some (i, u) \<and> \<not> VSP u
        \<and> VSPRequest_findOneByUsername (Some (username u)) db = None
        \<and> j \<noteq> [] \<and> username u \<noteq> []
        \<and> r = \<lparr>req_username = username u, req_content = j, granted = False\<rparr>
        \<and> db' = db\<lparr>vsprequests := vsprequests db @ [r]\<rparr>)"
  by (cases sess)
     (auto simp: submit_def post_vsprequest_def isUserLoggedIn_def isUserAlreadyVSP_def
       isUserAlreadySubmittedRequest_def VSPRequest_addOne_def truthy_def no_fields_def
       findOneByUserId_def Let_def
       split: option.splits if_splits)

lemma save_user_VSP:
  "i < length us \<Longrightarrow> us ! i = U \<Longrightarrow> save_user i (U\<lparr>VSP := v\<rparr>) us = us[i := U\<lparr>VSP := v\<rparr>]"
  by (simp add: save_user_def)

lemma updateOne_VSP:
  assumes "findOne (\<lambda>u. uid u = a) (users db) = Some (i, U)" "body_VSP b"
  shows "updateOne a b db =
           (Ok (U\<lparr>VSP := \<not> body_revoke b\<rparr>),
            db\<lparr>users := (users db)[i := U\<lparr>VSP := \<not> body_revoke b\<rparr>]\<rparr>)"
  using assms findOne_Some[OF assms(1)]
  by (auto simp: updateOne_def save_user_VSP Let_def)

lemma accept_Ok_iff:
  "(\<exists>x. accept db sess n = (Ok x, db')) \<longleftrightarrow>
     (\<exists>ia A k0 r0 k1 r1 iu U i0 U0.
        findOneByUserId sess db = Some (ia, A) \<and> username A = ''lola''
      \<and> VSPRequest_findOneByUsername (Some n) db = Some (k0, r0) \<and> \<not> granted r0
      \<and> findOne (\<lambda>r. req_username r = n) (vsprequests db) = Some (k1, r1)
      \<and> User_findOneByUsername (Some n) db = Some (iu, U)
      \<and> findOne (\<lambda>u. uid u = uid U) (users db) = Some (i0, U0)
      \<and> db' = db\<lparr>vsprequests := (vsprequests db)[k1 := r1\<lparr>granted := True\<rparr>],
                  users := (users db)[i0 := U0\<lparr>VSP := True\<rparr>]\<rparr>)"
  (is "?L \<longleftrightarrow> ?R")
proof
  assume ?L
  then obtain x where x: "accept db sess n = (Ok x, db')" ..
  then obtain ad where sess: "sess = Some ad"
    by (cases sess) (auto simp: accept_def put_vsprequest_def isUserLoggedIn_def)
  from x sess obtain ia A where A: "findOneByUserId sess db = Some (ia, A)" "username A = ''lola''"
    by (auto simp: accept_def put_vsprequest_def isUserLoggedIn_def isUserAdmin_def
        split: option.splits if_splits)
  from x sess A obtain k0 r0 where r0: "VSPRequest_findOneByUsername (Some n) db = Some (k0, r0)"
      "\<not> granted r0"
    by (auto simp: accept_def put_vsprequest_def isUserLoggedIn_def isUserAdmin_def
        isRequestExists_def isRequestAlreadyAccepted_def no_fields_def
        split: option.splits if_splits)
  have chain: "run_chain [isUserLoggedIn, isUserAdmin, isRequestExists, isRequestAlreadyAccepted]
             db sess (no_fields\<lparr>body_username := Some n\<rparr>) = None"
    using sess A r0
    by (simp add: isUserLoggedIn_def isUserAdmin_def
        isRequestExists_def isRequestAlreadyAccepted_def no_fields_def)
  from x chain obtain k1 r1 where r1: "findOne (\<lambda>r. req_username r = n) (vsprequests db) = Some (k1, r1)"
    by (auto simp: accept_def put_vsprequest_def acceptOne_def no_fields_def split: option.splits)
  let ?db1 = "db\<lparr>vsprequests := (vsprequests db)[k1 := r1\<lparr>granted := True\<rparr>]\<rparr>"
  from x chain r1 have s: "set_VSP (r1\<lparr>granted := True\<rparr>)
      (no_fields\<lparr>body_username := Some n, body_VSP := True\<rparr>) ?db1 = (Ok x, db')"
    by (simp add: accept_def put_vsprequest_def acceptOne_def no_fields_def)
  then obtain iu U where U: "User_findOneByUsername (Some n) db = Some (iu, U)"
    by (auto simp: set_VSP_def User_findOneByUsername_def no_fields_def split: option.splits)
  from s U obtain i0 U0 where U0: "findOne (\<lambda>u. uid u = uid U) (users db) = Some (i0, U0)"
    by (auto simp: set_VSP_def User_findOneByUsername_def no_fields_def updateOne_def
        split: option.splits)
  from U0 have U0': "findOne (\<lambda>u. uid u = uid U) (users ?db1) = Some (i0, U0)" by simp
  from s U have "db' = db\<lparr>vsprequests := (vsprequests db)[k1 := r1\<lparr>granted := True\<rparr>],
                  users := (users db)[i0 := U0\<lparr>VSP := True\<rparr>]\<rparr>"
    by (auto simp: set_VSP_def User_findOneByUsername_def no_fields_def
        updateOne_VSP[OF U0'])
  with A r0 r1 U U0 show ?R by blast
next
  assume ?R
  then obtain ia A k0 r0 k1 r1 iu U i0 U0 where
    A: "findOneByUserId sess db = Some (ia, A)" "username A = ''lola''"
    and r0: "VSPRequest_findOneByUsername (Some n) db = Some (k0, r0)" "\<not> granted r0"
    and r1: "findOne (\<lambda>r. req_username r = n) (vsprequests db) = Some (k1, r1)"
    and U: "User_findOneByUsername (Some n) db = Some (iu, U)"
    and U0: "findOne (\<lambda>u. uid u = uid U) (users db) = Some (i0, U0)"
    and db': "db' = db\<lparr>vsprequests := (vsprequests db)[k1 := r1\<lparr>granted := True\<rparr>],
                  users := (users db)[i0 := U0\<lparr>VSP := True\<rparr>]\<rparr>"
    by blast
  from A have sess: "sess \<noteq> None" by (auto simp: findOneByUserId_def split: option.splits)
  let ?db1 = "db\<lparr>vsprequests := (vsprequests db)[k1 := r1\<lparr>granted := True\<rparr>]\<rparr>"
  from U0 have U0': "findOne (\<lambda>u. uid u = uid U) (users ?db1) = Some (i0, U0)" by simp
  have "accept db sess n = (Ok (r1\<lparr>granted := True\<rparr>, U0\<lparr>VSP := True\<rparr>), db')"
    using sess A r0 r1 U db'
    by (simp add: accept_def put_vsprequest_def isUserLoggedIn_def isUserAdmin_def
        isRequestExists_def isRequestAlreadyAccepted_def no_fields_def acceptOne_def
        set_VSP_def User_findOneByUsername_def updateOne_VSP[OF U0'])
  then show ?L by blast
qed

lemma revoke_Ok_iff:
  "(\<exists>x. revoke db sess n = (Ok x, db')) \<longleftrightarrow>
     (\<exists>ia A k0 r0 k1 r1 iu U i0 U0.
        findOneByUserId sess db = Some (ia, A) \<and> username A = ''lola''
      \<and> VSPRequest_findOneByUsername (Some n) db = Some (k0, r0) \<and> granted r0
      \<and> findOne (\<lambda>r. req_username r = n) (vsprequests db) = Some (k1, r1)
      \<and> User_findOneByUsername (Some n) db = Some (iu, U)
      \<and> findOne (\<lambda>u. uid u = uid U) (users db) = Some (i0, U0)
      \<and> db' = db\<lparr>vsprequests := (vsprequests db)[k1 := r1\<lparr>granted := False\<rparr>],
                  users := (users db)[i0 := U0\<lparr>VSP := False\<rparr>]\<rparr>)"
  (is "?L \<longleftrightarrow> ?R")
proof
  assume ?L
  then obtain x where x: "revoke db sess n = (Ok x, db')" ..
  then obtain ad where sess: "sess = Some ad"
    by (cases sess) (auto simp: revoke_def delete_vspstatus_def isUserLoggedIn_def)
  from x sess obtain ia A where A: "findOneByUserId sess db = Some (ia, A)" "username A = ''lola''"
    by (auto simp: revoke_def delete_vspstatus_def isUserLoggedIn_def isUserAdmin_def
        split: option.splits if_splits)
  from x sess A obtain k0 r0 where r0: "VSPRequest_findOneByUsername (Some n) db = Some (k0, r0)"
      "granted r0"
    by (auto simp: revoke_def delete_vspstatus_def isUserLoggedIn_def isUserAdmin_def
        isRequestExists_def isRequestNotYetGranted_def no_fields_def
        split: option.splits if_splits)
  have chain: "run_chain [isUserLoggedIn, isUserAdmin, isRequestExists, isRequestNotYetGranted]
             db sess (no_fields\<lparr>body_username := Some n\<rparr>) = None"
    using sess A r0
    by (simp add: isUserLoggedIn_def isUserAdmin_def
        isRequestExists_def isRequestNotYetGranted_def no_fields_def)
  from x chain obtain k1 r1 where r1: "findOne (\<lambda>r. req_username r = n) (vsprequests db) = Some (k1, r1)"
    by (auto simp: revoke_def delete_vspstatus_def ungrantOne_def no_fields_def split: option.splits)
  let ?db1 = "db\<lparr>vsprequests := (vsprequests db)[k1 := r1\<lparr>granted := False\<rparr>]\<rparr>"
  from x chain r1 have s: "set_VSP (r1\<lparr>granted := False\<rparr>)
      (no_fields\<lparr>body_username := Some n, body_VSP := True, body_revoke := True\<rparr>) ?db1 = (Ok x, db')"
    by (simp add: revoke_def delete_vspstatus_def ungrantOne_def no_fields_def)
  then obtain iu U where U: "User_findOneByUsername (Some n) db = Some (iu, U)"
    by (auto simp: set_VSP_def User_findOneByUsername_def no_fields_def split: option.splits)
  from s U obtain i0 U0 where U0: "findOne (\<lambda>u. uid u = uid U) (users db) = Some (i0, U0)"
    by (auto simp: set_VSP_def User_findOneByUsername_def no_fields_def updateOne_def
        split: option.splits)
  from U0 have U0': "findOne (\<lambda>u. uid u = uid U) (users ?db1) = Some (i0, U0)" by simp
  from s U have "db' = db\<lparr>vsprequests := (vsprequests db)[k1 := r1\<lparr>granted := False\<rparr>],
                  users := (users db)[i0 := U0\<lparr>VSP := False\<rparr>]\<rparr>"
    by (auto simp: set_VSP_def User_findOneByUsername_def no_fields_def
        updateOne_VSP[OF U0'])
  with A r0 r1 U U0 show ?R by blast
next
  assume ?R
  then obtain ia A k0 r0 k1 r1 iu U i0 U0 where
    A: "findOneByUserId sess db = Some (ia, A)" "username A = ''lola''"
    and r0: "VSPRequest_findOneByUsername (Some n) db = Some (k0, r0)" "granted r0"
    and r1: "findOne (\<lambda>r. req_username r = n) (vsprequests db) = Some (k1, r1)"
    and U: "User_findOneByUsername (Some n) db = Some (iu, U)"
    and U0: "findOne (\<lambda>u. uid u = uid U) (users db) = Some (i0, U0)"
    and db': "db' = db\<lparr>vsprequests := (vsprequests db)[k1 := r1\<lparr>granted := False\<rparr>],
                  users := (users db)[i0 := U0\<lparr>VSP := False\<rparr>]\<rparr>"
    by blast
  from A have sess: "sess \<noteq> None" by (auto simp: findOneByUserId_def split: option.splits)
  let ?db1 = "db\<lparr>vsprequests := (vsprequests db)[k1 := r1\<lparr>granted := False\<rparr>]\<rparr>"
  from U0 have U0': "findOne (\<lambda>u. uid u = uid U) (users ?db1) = Some (i0, U0)" by simp
  have "revoke db sess n = (Ok (r1\<lparr>granted := False\<rparr>, U0\<lparr>VSP := False\<rparr>), db')"
    using sess A r0 r1 U db'
    by (simp add: revoke_def delete_vspstatus_def isUserLoggedIn_def isUserAdmin_def
        isRequestExists_def isRequestNotYetGranted_def no_fields_def ungrantOne_def
        set_VSP_def User_findOneByUsername_def updateOne_VSP[OF U0'])
  then show ?L by blast
qed

lemma word_char_not_whitespace: "word_char c \<Longrightarrow> \<not> whitespace c"
  by (auto simp: word_char_def whitespace_def less_eq_char_def)

lemma dropWhile_none: "xs \<noteq> [] \<Longrightarrow> \<forall>c\<in>set xs. \<not> P c \<Longrightarrow> dropWhile P xs = xs"
  by (cases xs) auto

lemma valid_username_trim: "valid_username n \<Longrightarrow> trim n = n"
proof -
  assume v: "valid_username n"
  then have n: "n \<noteq> []" "\<forall>c\<in>set n. \<not> whitespace c"
    by (auto simp: valid_username_def word_char_not_whitespace)
  then have "dropWhile whitespace n = n" by (rule dropWhile_none)
  moreover from n have "dropWhile whitespace (rev n) = rev n"
    by (intro dropWhile_none) auto
  ultimately show ?thesis by (simp add: trim_def)
qed

lemma same_request:
  assumes one: "one_request_per_username db"
    and r0: "VSPRequest_findOneByUsername (Some n) db = Some (k0, r0)"
    and r1: "findOne (\<lambda>r. req_username r = n) (vsprequests db) = Some (k1, r1)"
  shows "k0 = k1 \<and> r0 = r1"
proof -
  from r0 have k0: "k0 < length (vsprequests db)" "vsprequests db ! k0 = r0"
     "map lower (trim n) = map lower (req_username r0)"
    by (auto simp: VSPRequest_findOneByUsername_def username_regex_def dest: findOne_Some)
  from r1 have k1: "k1 < length (vsprequests db)" "vsprequests db ! k1 = r1" "req_username r1 = n"
    by (auto dest: findOne_Some)
  then have "r1 \<in> set (vsprequests db)" by auto
  with one k1 have "trim n = n"
    by (auto simp: one_request_per_username_def valid_username_trim)
  with k0 k1 have "map (\<lambda>r. map lower (req_username r)) (vsprequests db) ! k0
                 = map (\<lambda>r. map lower (req_username r)) (vsprequests db) ! k1"
    by simp
  moreover from one have "distinct (map (\<lambda>r. map lower (req_username r)) (vsprequests db))"
    by (simp add: one_request_per_username_def)
  ultimately have "k0 = k1"
    using k0(1) k1(1)
      nth_eq_iff_index_eq[of "map (\<lambda>r. map lower (req_username r)) (vsprequests db)" k0 k1]
    by simp
  with k0 k1 show ?thesis by simp
qed

text \<open>
  C4 as the code has it. For every user with a valid username (letters, digits and
  underscores), \<open>submit\<close> fails with AlreadyVerified when the user is verified; otherwise
  it fails with RequestAlreadyExists whenever a request document is stored for the
  username, whatever its \<open>granted\<close> flag, so also for a request that was revoked; it
  succeeds exactly when the user is not verified, no request document is stored for the
  username and the justification is not empty; and on success it appends a request with
  \<open>granted = False\<close>.
\<close>

theorem submit_outcomes:
  assumes "findOneByUserId (Some a) db = Some (i, u)"
    and "valid_username (username u)"
  shows "(VSP u \<longrightarrow> submit db (Some a) j = (Fail AlreadyVerified, db))
       \<and> (\<not> VSP u \<and> VSPRequest_findOneByUsername (Some (username u)) db \<noteq> None \<longrightarrow>
            submit db (Some a) j = (Fail RequestAlreadyExists, db))
       \<and> ((\<exists>r db'. submit db (Some a) j = (Ok r, db')) \<longleftrightarrow>
            (\<not> VSP u \<and> VSPRequest_findOneByUsername (Some (username u)) db = None
             \<and> j \<noteq> []))
       \<and> (\<forall>r db'. submit db (Some a) j = (Ok r, db') \<longrightarrow>
            r = \<lparr>req_username = username u, req_content = j, granted = False\<rparr>
            \<and> db' = db\<lparr>vsprequests := vsprequests db @ [r]\<rparr>)"
proof -
  from assms(2) have ne: "username u \<noteq> []" by (simp add: valid_username_def)
  have 1: "VSP u \<longrightarrow> submit db (Some a) j = (Fail AlreadyVerified, db)"
    using assms(1)
    by (simp add: submit_def post_vsprequest_def isUserLoggedIn_def isUserAlreadyVSP_def)
  have 2: "\<not> VSP u \<and> VSPRequest_findOneByUsername (Some (username u)) db \<noteq> None \<longrightarrow>
            submit db (Some a) j = (Fail RequestAlreadyExists, db)"
    using assms(1)
    by (auto simp: submit_def post_vsprequest_def isUserLoggedIn_def isUserAlreadyVSP_def
        isUserAlreadySubmittedRequest_def)
  have 3: "(\<exists>r db'. submit db (Some a) j = (Ok r, db')) \<longleftrightarrow>
            (\<not> VSP u \<and> VSPRequest_findOneByUsername (Some (username u)) db = None
             \<and> j \<noteq> [])"
    using assms(1) ne unfolding submit_Ok_iff by auto
  have 4: "\<forall>r db'. submit db (Some a) j = (Ok r, db') \<longrightarrow>
            r = \<lparr>req_username = username u, req_content = j, granted = False\<rparr>
            \<and> db' = db\<lparr>vsprequests := vsprequests db @ [r]\<rparr>"
    using assms(1) unfolding submit_Ok_iff by auto
  from 1 2 3 4 show ?thesis by blast
qed

theorem submit_outcomes_witness:
  "findOneByUserId (Some 4) db_admin = Some (1, dave)
   \<and> valid_username (username dave) \<and> valid_username (username (dave\<lparr>VSP := True\<rparr>))
   \<and> submit db_admin (Some 4) ''I am a journalist'' = (Ok request_dave, db_pending)
   \<and> findOneByUserId (Some 4) db_pending = Some (1, dave)
   \<and> submit db_pending (Some 4) ''I am a journalist'' = (Fail RequestAlreadyExists, db_pending)
   \<and> findOneByUserId (Some 4) db_granted = Some (1, dave\<lparr>VSP := True\<rparr>)
   \<and> submit db_granted (Some 4) ''I am a journalist'' = (Fail AlreadyVerified, db_granted)"
proof -
  have h1: "findOneByUserId (Some 4) db_admin = Some (1, dave)" by code_simp
  have h2: "findOneByUserId (Some 4) db_pending = Some (1, dave)" by code_simp
  have h3: "findOneByUserId (Some 4) db_granted = Some (1, dave\<lparr>VSP := True\<rparr>)" by code_simp
  have v: "valid_username (username dave)" by code_simp
  have v': "valid_username (username (dave\<lparr>VSP := True\<rparr>))" by code_simp
  have c1: "\<not> VSP dave" "username dave = ''dave''" by (simp_all add: dave_def)
  have c2: "VSPRequest_findOneByUsername (Some ''dave'') db_admin = None" by code_simp
  have c3: "VSPRequest_findOneByUsername (Some ''dave'') db_pending \<noteq> None" by code_simp
  have e: "db_admin\<lparr>vsprequests := vsprequests db_admin @ [request_dave]\<rparr> = db_pending"
    by (simp add: db_pending_def db_admin_def)
  from submit_outcomes[OF h1 v, of "''I am a journalist''"] c1 c2
  have "submit db_admin (Some 4) ''I am a journalist'' = (Ok request_dave, db_pending)"
    by (auto simp: request_dave_def[symmetric] e)
  moreover from submit_outcomes[OF h2 v, of "''I am a journalist''"] c1 c3
  have "submit db_pending (Some 4) ''I am a journalist'' = (Fail RequestAlreadyExists, db_pending)"
    by simp
  moreover from submit_outcomes[OF h3 v', of "''I am a journalist''"]
  have "submit db_granted (Some 4) ''I am a journalist'' = (Fail AlreadyVerified, db_granted)"
    by simp
  ultimately show ?thesis using h1 h2 h3 v v' by blast
qed

text \<open>
  C4 as stated fails: after submit, accept and revoke the username is in state None of the
  specification (previously revoked), and yet a new submit is refused with
  RequestAlreadyExists, while no pending request exists.
\<close>

theorem submit_after_revoke_counterexample:
  "submit db_admin (Some 4) ''I am a journalist'' = (Ok request_dave, db_pending)
   \<and> accept db_pending (Some 5) ''dave''
       = (Ok (request_dave\<lparr>granted := True\<rparr>, dave\<lparr>VSP := True\<rparr>), db_granted)
   \<and> revoke db_granted (Some 5) ''dave'' = (Ok (request_dave, dave), db_revoked)
   \<and> findOneByUserId (Some 4) db_revoked = Some (1, dave) \<and> \<not> VSP dave
   \<and> VSPRequest_findOneByUsername (Some ''dave'') db_revoked = Some (0, request_dave)
   \<and> \<not> granted request_dave
   \<and> submit db_revoked (Some 4) ''I am a journalist'' = (Fail RequestAlreadyExists, db_revoked)"
  by code_simp

text \<open>
  C8 as the code has it. In a database with unique document ids and one request per valid
  username, \<open>accept\<close> succeeds only when a request is stored for the username with
  \<open>granted = False\<close>, which a pending request is and a revoked request is as well; on
  success the stored request has \<open>granted = True\<close> and the stored user has \<open>VSP = True\<close>;
  and a second \<open>accept\<close> for the same username is refused with AlreadyGranted.
\<close>

theorem accept_only_pending:
  assumes ok: "accept db sess n = (Ok (r, u), db')"
    and ids: "distinct (map uid (users db))"
    and one: "one_request_per_username db"
  shows "(\<exists>k q. VSPRequest_findOneByUsername (Some n) db = Some (k, q) \<and> \<not> granted q)
       \<and> (\<exists>k. VSPRequest_findOneByUsername (Some n) db' = Some (k, r)) \<and> granted r
       \<and> (\<exists>i. User_findOneByUsername (Some n) db' = Some (i, u)) \<and> VSP u
       \<and> accept db' sess n = (Fail AlreadyGranted, db')"
proof -
  from ok have "\<exists>x. accept db sess n = (Ok x, db')" by blast
  then obtain ia A k0 r0 k1 r1 iu U i0 U0 where
    A: "findOneByUserId sess db = Some (ia, A)" "username A = ''lola''"
    and r0: "VSPRequest_findOneByUsername (Some n) db = Some (k0, r0)" "\<not> granted r0"
    and r1: "findOne (\<lambda>r. req_username r = n) (vsprequests db) = Some (k1, r1)"
    and U: "User_findOneByUsername (Some n) db = Some (iu, U)"
    and U0: "findOne (\<lambda>u. uid u = uid U) (users db) = Some (i0, U0)"
    and db': "db' = db\<lparr>vsprequests := (vsprequests db)[k1 := r1\<lparr>granted := True\<rparr>],
                  users := (users db)[i0 := U0\<lparr>VSP := True\<rparr>]\<rparr>"
    unfolding accept_Ok_iff by blast
  from A obtain ad where sess: "sess = Some ad"
    by (cases sess) (auto simp: findOneByUserId_def)
  let ?db1 = "db\<lparr>vsprequests := (vsprequests db)[k1 := r1\<lparr>granted := True\<rparr>]\<rparr>"
  from U0 have U0': "findOne (\<lambda>u. uid u = uid U) (users ?db1) = Some (i0, U0)" by simp
  have "accept db sess n = (Ok (r1\<lparr>granted := True\<rparr>, U0\<lparr>VSP := True\<rparr>), db')"
    using sess A r0 r1 U db'
    by (simp add: accept_def put_vsprequest_def isUserLoggedIn_def isUserAdmin_def
        isRequestExists_def isRequestAlreadyAccepted_def no_fields_def acceptOne_def
        set_VSP_def User_findOneByUsername_def updateOne_VSP[OF U0'])
  with ok have ru: "r = r1\<lparr>granted := True\<rparr>" "u = U0\<lparr>VSP := True\<rparr>" by simp_all
  from same_request[OF one r0(1) r1] have k: "k0 = k1" "r0 = r1" by simp_all
  from findOne_Some[OF r1] have k1: "k1 < length (vsprequests db)" "vsprequests db ! k1 = r1"
    by simp_all
  have req': "VSPRequest_findOneByUsername (Some n) db' = Some (k1, r)"
  proof -
    have "findOne (\<lambda>r. username_regex (Some n) (req_username r)) (vsprequests db')
          = Some (k0, vsprequests db' ! k0)"
      using r0(1) k1 unfolding VSPRequest_findOneByUsername_def db'
      by (intro findOne_same_keys[where xs = "vsprequests db"]) (auto simp: nth_list_update)
    with k k1 ru show ?thesis by (simp add: VSPRequest_findOneByUsername_def db')
  qed
  from findOne_Some[OF U0] have i0: "i0 < length (users db)" "users db ! i0 = U0" "uid U0 = uid U"
    by simp_all
  from U have iu: "iu < length (users db)" "users db ! iu = U"
    by (auto simp: User_findOneByUsername_def dest: findOne_Some)
  from ids i0 iu have "i0 = iu"
    using nth_eq_iff_index_eq[of "map uid (users db)" i0 iu] by simp
  have usr': "User_findOneByUsername (Some n) db' = Some (iu, u)"
  proof -
    have "findOne (\<lambda>u. username_regex (Some n) (username u)) (users db')
          = Some (iu, users db' ! iu)"
      using U i0 unfolding User_findOneByUsername_def db'
      by (intro findOne_same_keys[where xs = "users db"]) (auto simp: nth_list_update)
    with \<open>i0 = iu\<close> i0 ru show ?thesis by (simp add: User_findOneByUsername_def db')
  qed
  have "findOne (\<lambda>u. uid u = ad) (users db') = Some (ia, users db' ! ia)"
  proof (rule findOne_same_keys)
    from A sess show "findOne (\<lambda>u. uid u = ad) (users db) = Some (ia, A)"
      by (simp add: findOneByUserId_def)
    show "length (users db') = length (users db)" by (simp add: db')
    from i0 show "\<forall>k<length (users db). (uid (users db' ! k) = ad) = (uid (users db ! k) = ad)"
      by (auto simp: db' nth_list_update)
  qed
  with sess have adm': "findOneByUserId sess db' = Some (ia, users db' ! ia)"
    by (simp add: findOneByUserId_def)
  from A sess have "ia < length (users db)" "users db ! ia = A"
    by (auto simp: findOneByUserId_def dest: findOne_Some)
  with i0 A have lola: "username (users db' ! ia) = ''lola''"
    by (auto simp: db' nth_list_update)
  have again: "accept db' sess n = (Fail AlreadyGranted, db')"
    using sess adm' lola req' ru
    by (simp add: accept_def put_vsprequest_def isUserLoggedIn_def isUserAdmin_def
        isRequestExists_def isRequestAlreadyAccepted_def no_fields_def)
  from r0 req' usr' ru again show ?thesis by auto
qed

theorem accept_only_pending_witness:
  "accept db_pending (Some 5) ''dave''
       = (Ok (request_dave\<lparr>granted := True\<rparr>, dave\<lparr>VSP := True\<rparr>), db_granted)
   \<and> distinct (map uid (users db_pending)) \<and> one_request_per_username db_pending
   \<and> VSPRequest_findOneByUsername (Some ''dave'') db_pending = Some (0, request_dave)
   \<and> accept db_granted (Some 5) ''dave'' = (Fail AlreadyGranted, db_granted)"
proof -
  have h1: "accept db_pending (Some 5) ''dave''
       = (Ok (request_dave\<lparr>granted := True\<rparr>, dave\<lparr>VSP := True\<rparr>), db_granted)"
    by code_simp
  have h2: "distinct (map uid (users db_pending))" by code_simp
  have h3: "one_request_per_username db_pending" by code_simp
  have h4: "VSPRequest_findOneByUsername (Some ''dave'') db_pending = Some (0, request_dave)"
    by code_simp
  from accept_only_pending[OF h1 h2 h3] h1 h2 h3 h4 show ?thesis by blast
qed

text \<open>
  C8 as stated fails: \<open>accept\<close> also succeeds when the request is not pending. Carol's
  request has been accepted and revoked, which is state None of the specification; the
  revoke leads back to the very database that her submit produced, and \<open>accept\<close>
  succeeds there.
\<close>

theorem accept_from_revoked_counterexample:
  "submit db_office (Some 3) ''I check sources'' = (Ok request_carol, db_office_pending)
   \<and> accept db_office_pending (Some 5) ''carol''
       = (Ok (request_carol\<lparr>granted := True\<rparr>, carol\<lparr>VSP := True\<rparr>), db_office_granted)
   \<and> revoke db_office_granted (Some 5) ''carol''
       = (Ok (request_carol, carol), db_office_pending)
   \<and> accept (snd (revoke db_office_granted (Some 5) ''carol'')) (Some 5) ''carol''
       = (Ok (request_carol\<lparr>granted := True\<rparr>, carol\<lparr>VSP := True\<rparr>), db_office_granted)"
  by code_simp

text \<open>
  The second accept is refused only where the check and \<open>acceptOne\<close> find the same
  document: with two requests whose usernames differ in case, the check reads the first
  and \<open>acceptOne\<close> grants the second, again and again.
\<close>

lemma case_variant_requests_accept_twice:
  "accept db_case_variants (Some 5) ''dave''
     = (Ok (request_dave\<lparr>granted := True\<rparr>, dave\<lparr>VSP := True\<rparr>),
        accept_twice_state)
   \<and> accept accept_twice_state (Some 5) ''dave''
     = (Ok (request_dave\<lparr>granted := True\<rparr>, dave\<lparr>VSP := True\<rparr>), accept_twice_state)"
  by code_simp

text \<open>
  C3 as the code has it. After a successful submit, accept and revoke the user's \<open>VSP\<close>
  flag is false and the request is stored with \<open>granted = False\<close>, exactly like a pending
  one; a further accept for the username therefore succeeds without a new submit.
\<close>

theorem revoked_request_can_be_accepted_again:
  assumes u: "findOneByUserId (Some a) db = Some (i, u)"
    and s: "submit db (Some a) j = (Ok r, db1)"
    and ac: "accept db1 adm (username u) = (Ok x, db2)"
    and rv: "revoke db2 adm (username u) = (Ok y, db3)"
  shows "(\<exists>i' u'. findOneByUserId (Some a) db3 = Some (i', u') \<and> \<not> VSP u')
       \<and> (\<exists>k q. VSPRequest_findOneByUsername (Some (username u)) db3 = Some (k, q)
                \<and> \<not> granted q)
       \<and> (\<exists>z db4. accept db3 adm (username u) = (Ok z, db4))"
proof -
  let ?n = "username u"
  let ?ci = "\<lambda>r. username_regex (Some ?n) (req_username r)"
  let ?ex = "\<lambda>r. req_username r = ?n"
  let ?cu = "\<lambda>v. username_regex (Some ?n) (username v)"
  let ?reqs = "vsprequests db"
  let ?us = "users db"
  \<comment> \<open>submit\<close>
  from s u have nv: "\<not> VSP u"
    and none: "findOne ?ci ?reqs = None"
    and r: "r = \<lparr>req_username = ?n, req_content = j, granted = False\<rparr>"
    and db1: "db1 = db\<lparr>vsprequests := ?reqs @ [r]\<rparr>"
    by (auto simp: submit_Ok_iff VSPRequest_findOneByUsername_def)
  \<comment> \<open>accept\<close>
  from ac have "\<exists>x. accept db1 adm ?n = (Ok x, db2)" by blast
  then obtain ia A k0 r0 k1 r1 iu U i0 U0 where
    A: "findOneByUserId adm db1 = Some (ia, A)" "username A = ''lola''"
    and r0: "VSPRequest_findOneByUsername (Some ?n) db1 = Some (k0, r0)"
    and r1: "findOne ?ex (vsprequests db1) = Some (k1, r1)"
    and U: "User_findOneByUsername (Some ?n) db1 = Some (iu, U)"
    and U0: "findOne (\<lambda>v. uid v = uid U) (users db1) = Some (i0, U0)"
    and db2: "db2 = db1\<lparr>vsprequests := (vsprequests db1)[k1 := r1\<lparr>granted := True\<rparr>],
                  users := (users db1)[i0 := U0\<lparr>VSP := True\<rparr>]\<rparr>"
    unfolding accept_Ok_iff by blast
  from r0 have "findOne ?ci (?reqs @ [r]) = Some (k0, r0)"
    by (simp add: VSPRequest_findOneByUsername_def db1)
  from findOne_append_new[OF none this] have ci_r: "?ci r" by simp
  with r have self: "username_regex (Some ?n) ?n" by simp
  have none_ex: "findOne ?ex ?reqs = None"
    using none self by (auto simp: findOne_None)
  from r1 have "findOne ?ex (?reqs @ [r]) = Some (k1, r1)" by (simp add: db1)
  from findOne_append_new[OF none_ex this] have k1: "k1 = length ?reqs" "r1 = r" by simp_all
  from findOne_Some[OF U0] have i0: "i0 < length ?us" "?us ! i0 = U0" "uid U0 = uid U"
    by (simp_all add: db1)
  from U have iu: "findOne ?cu ?us = Some (iu, U)"
    by (simp add: User_findOneByUsername_def db1)
  from U0 have U0a: "findOne (\<lambda>v. uid v = uid U) ?us = Some (i0, U0)" by (simp add: db1)
  from A obtain ad where adm: "adm = Some ad" and Aa: "findOne (\<lambda>v. uid v = ad) ?us = Some (ia, A)"
    by (cases adm) (auto simp: findOneByUserId_def db1)
  from u have ua: "findOne (\<lambda>v. uid v = a) ?us = Some (i, u)"
    by (simp add: findOneByUserId_def)
  let ?us2 = "?us[i0 := U0\<lparr>VSP := True\<rparr>]"
  have db2': "db2 = db\<lparr>vsprequests := ?reqs @ [r\<lparr>granted := True\<rparr>], users := ?us2\<rparr>"
    by (simp add: db2 db1 k1)
  \<comment> \<open>revoke\<close>
  from rv have "\<exists>y. revoke db2 adm ?n = (Ok y, db3)" by blast
  then obtain k1' r1' iu' U' i0' U0' where
    r1': "findOne ?ex (vsprequests db2) = Some (k1', r1')"
    and U': "User_findOneByUsername (Some ?n) db2 = Some (iu', U')"
    and U0': "findOne (\<lambda>v. uid v = uid U') (users db2) = Some (i0', U0')"
    and db3: "db3 = db2\<lparr>vsprequests := (vsprequests db2)[k1' := r1'\<lparr>granted := False\<rparr>],
                  users := (users db2)[i0' := U0'\<lparr>VSP := False\<rparr>]\<rparr>"
    unfolding revoke_Ok_iff by blast
  from r1' have "findOne ?ex (?reqs @ [r\<lparr>granted := True\<rparr>]) = Some (k1', r1')"
    by (simp add: db2')
  from findOne_append_new[OF none_ex this] have k1': "k1' = length ?reqs" "r1' = r\<lparr>granted := True\<rparr>"
    by simp_all
  have "findOne ?cu ?us2 = Some (iu, ?us2 ! iu)"
    using iu i0 by (intro findOne_VSP_update) simp_all
  with U' have iu': "iu' = iu" "U' = ?us2 ! iu"
    by (auto simp: User_findOneByUsername_def db2')
  from findOne_Some[OF iu] have iuU: "iu < length ?us" "?us ! iu = U" by simp_all
  with i0 iu' have uidU': "uid U' = uid U" by (auto simp: nth_list_update)
  have "findOne (\<lambda>v. uid v = uid U) ?us2 = Some (i0, ?us2 ! i0)"
    using U0a i0 by (intro findOne_VSP_update) simp_all
  with U0' uidU' i0 have i0': "i0' = i0" "U0' = U0\<lparr>VSP := True\<rparr>"
    by (simp_all add: db2')
  let ?us3 = "?us[i0 := U0\<lparr>VSP := False\<rparr>]"
  have rF: "r\<lparr>granted := False\<rparr> = r" by (simp add: r)
  have db3': "db3 = db\<lparr>vsprequests := ?reqs @ [r], users := ?us3\<rparr>"
    by (simp add: db3 db2' k1' i0' rF)
  \<comment> \<open>the final state\<close>
  have look: "findOne q ?us3 = Some (k, ?us3 ! k)"
    if "findOne q ?us = Some (k, z)" "\<And>u v. q (u\<lparr>VSP := v\<rparr>) = q u" for q k z
    using that i0 by (intro findOne_VSP_update) simp_all
  have "findOne (\<lambda>v. uid v = a) ?us3 = Some (i, ?us3 ! i)"
    using ua by (rule look) simp
  moreover from findOne_Some[OF ua] i0 nv have "\<not> VSP (?us3 ! i)"
    by (auto simp: nth_list_update)
  ultimately have 1: "\<exists>i' u'. findOneByUserId (Some a) db3 = Some (i', u') \<and> \<not> VSP u'"
    by (simp add: findOneByUserId_def db3')
  have req3: "VSPRequest_findOneByUsername (Some ?n) db3 = Some (length ?reqs, r)"
    using findOne_append_first[OF none ci_r]
    by (simp add: VSPRequest_findOneByUsername_def db3')
  have ng: "\<not> granted r" by (simp add: r)
  have A3: "findOneByUserId adm db3 = Some (ia, ?us3 ! ia)"
    using look[OF Aa] by (simp add: findOneByUserId_def db3' adm)
  from findOne_Some[OF Aa] A(2) i0 have lola: "username (?us3 ! ia) = ''lola''"
    by (auto simp: nth_list_update)
  have ex3: "findOne ?ex (vsprequests db3) = Some (length ?reqs, r)"
    using findOne_append_first[OF none_ex, of r] r by (simp add: db3')
  have U3: "User_findOneByUsername (Some ?n) db3 = Some (iu, ?us3 ! iu)"
    using look[OF iu] by (simp add: User_findOneByUsername_def db3')
  from iuU i0 have "uid (?us3 ! iu) = uid U" by (auto simp: nth_list_update) 
  with look[OF U0a] have U03: "findOne (\<lambda>v. uid v = uid (?us3 ! iu)) (users db3) = Some (i0, ?us3 ! i0)"
    by (simp add: db3')
  have "\<exists>z. accept db3 adm ?n = (Ok z,
     db3\<lparr>vsprequests := (vsprequests db3)[length ?reqs := r\<lparr>granted := True\<rparr>],
         users := (users db3)[i0 := (?us3 ! i0)\<lparr>VSP := True\<rparr>]\<rparr>)"
    unfolding accept_Ok_iff using A3 lola req3 ng ex3 U3 U03 by blast
  then have 3: "\<exists>z db4. accept db3 adm ?n = (Ok z, db4)" by blast
  from 1 req3 ng 3 show ?thesis by blast
qed

theorem revoked_request_can_be_accepted_again_witness:
  "findOneByUserId (Some 4) db_admin = Some (1, dave)
   \<and> submit db_admin (Some 4) ''I am a journalist'' = (Ok request_dave, db_pending)
   \<and> accept db_pending (Some 5) (username dave)
       = (Ok (request_dave\<lparr>granted := True\<rparr>, dave\<lparr>VSP := True\<rparr>), db_granted)
   \<and> revoke db_granted (Some 5) (username dave) = (Ok (request_dave, dave), db_revoked)
   \<and> (\<exists>i' u'. findOneByUserId (Some 4) db_revoked = Some (i', u') \<and> \<not> VSP u')
   \<and> (\<exists>z db4. accept db_revoked (Some 5) (username dave) = (Ok z, db4))"
proof -
  have h1: "findOneByUserId (Some 4) db_admin = Some (1, dave)" by code_simp
  have h2: "submit db_admin (Some 4) ''I am a journalist'' = (Ok request_dave, db_pending)"
    by code_simp
  have h3: "accept db_pending (Some 5) (username dave)
       = (Ok (request_dave\<lparr>granted := True\<rparr>, dave\<lparr>VSP := True\<rparr>), db_granted)"
    by code_simp
  have h4: "revoke db_granted (Some 5) (username dave) = (Ok (request_dave, dave), db_revoked)"
    by code_simp
  from revoked_request_can_be_accepted_again[OF h1 h2 h3 h4] h1 h2 h3 h4
  show ?thesis by blast
qed

text \<open>
  C3 as stated fails: dave submits, lola accepts and revokes, and lola's next accept
  succeeds although dave has not submitted again.
\<close>

theorem accept_after_revoke_counterexample:
  "submit db_admin (Some 4) ''I am a journalist'' = (Ok request_dave, db_pending)
   \<and> accept db_pending (Some 5) ''dave''
       = (Ok (request_dave\<lparr>granted := True\<rparr>, dave\<lparr>VSP := True\<rparr>), db_granted)
   \<and> revoke db_granted (Some 5) ''dave'' = (Ok (request_dave, dave), db_revoked)
   \<and> accept db_revoked (Some 5) ''dave''
       = (Ok (request_dave\<lparr>granted := True\<rparr>, dave\<lparr>VSP := True\<rparr>), db_granted)"
  by code_simp

section \<open>The content-trust ledger\<close>

text \<open>
  The two checks \<open>isFreetAFact\<close> and \<open>isUserVSP\<close> refuse wherever a route places them, as soon as the checks
  before them have passed.
\<close>

lemma run_chain_append:
  "run_chain (pre @ m # post) db sess b =
     (case run_chain pre db sess b of
        Some e \<Rightarrow> Some e
      | None \<Rightarrow> (case m db sess b of Some e \<Rightarrow> Some e | None \<Rightarrow> run_chain post db sess b))"
  by (induction pre) (auto split: option.splits)

lemma isFreetAFact_refuses_anywhere:
  assumes "Freet_findOne (body_freetId b) db = Some (k, f)" and "\<not> fact_flag f"
    and "run_chain pre db sess b = None"
  shows "run_chain (pre @ isFreetAFact # post) db sess b = Some NotAFact"
  using assms by (simp add: run_chain_append isFreetAFact_def)

lemma isUserVSP_refuses_anywhere:
  assumes "findOneByUserId sess db = Some (i, u)" and "\<not> VSP u"
    and "run_chain pre db sess b = None"
  shows "run_chain (pre @ isUserVSP # post) db sess b = Some NotVerified"
  using assms by (simp add: run_chain_append isUserVSP_def)



end
